theory Spec2Isabelle
  imports Main "HOL-Library.Sublist" "HOL-Library.Multiset"
begin

section \<open>Strings\<close>

text \<open>
  A source string is a sequence of code units; the model has the code units 0 to 255, the
  type \<^typ>\<open>char\<close>. Among these the whitespace class of \<^verbatim>\<open>\s\<close> and \<^verbatim>\<open>trim()\<close> is
  the six ASCII whitespace characters and the no-break space U+00A0. \<open>is_upper\<close>,
  \<open>is_lower\<close> and \<open>is_digit\<close> are the ranges \<^verbatim>\<open>A-Z\<close>, \<^verbatim>\<open>a-z\<close> and \<^verbatim>\<open>0-9\<close> of the
  source's character classes. \<^verbatim>\<open>toLowerCase()\<close> changes the capital letters: \<^verbatim>\<open>A-Z\<close> and
  U+00C0 to U+00DE other than the multiplication sign U+00D7, each mapped to the letter 32
  code units above it; it leaves every other code unit alone.
\<close>

definition is_space :: "char \<Rightarrow> bool" where
  "is_space c \<longleftrightarrow> c \<in> set [CHR 0x09, CHR 0x0A, CHR 0x0B, CHR 0x0C, CHR 0x0D, CHR 0x20, CHR 0xA0]"

definition is_upper :: "char \<Rightarrow> bool" where
  "is_upper c \<longleftrightarrow> 65 \<le> (of_char c :: nat) \<and> (of_char c :: nat) \<le> 90"

definition is_lower :: "char \<Rightarrow> bool" where
  "is_lower c \<longleftrightarrow> 97 \<le> (of_char c :: nat) \<and> (of_char c :: nat) \<le> 122"

definition is_digit :: "char \<Rightarrow> bool" where
  "is_digit c \<longleftrightarrow> 48 \<le> (of_char c :: nat) \<and> (of_char c :: nat) \<le> 57"

definition is_capital :: "char \<Rightarrow> bool" where
  "is_capital c \<longleftrightarrow> is_upper c
     \<or> (192 \<le> (of_char c :: nat) \<and> (of_char c :: nat) \<le> 222 \<and> (of_char c :: nat) \<noteq> 215)"

definition lower_char :: "char \<Rightarrow> char" where
  "lower_char c = (if is_capital c then char_of ((of_char c :: nat) + 32) else c)"

definition toLowerCase :: "string \<Rightarrow> string" where
  "toLowerCase s = map lower_char s"

definition trim :: "string \<Rightarrow> string" where
  "trim s = rev (dropWhile is_space (rev (dropWhile is_space s)))"

text \<open>\<^verbatim>\<open>s.split(/\s+/)\<close>: the pieces between maximal runs of whitespace; the empty
  string gives one empty piece, leading or trailing whitespace an empty first or last piece.\<close>

function split_ws :: "string \<Rightarrow> string list" where
  "split_ws s =
     (case dropWhile (\<lambda>c. \<not> is_space c) s of
        [] \<Rightarrow> [s]
      | _ # rest \<Rightarrow> takeWhile (\<lambda>c. \<not> is_space c) s # split_ws (dropWhile is_space rest))"
  by pat_completeness auto
termination
proof (relation "measure length")
  fix s :: string and x rest
  assume "dropWhile (\<lambda>c. \<not> is_space c) s = x # rest"
  then have "length rest < length s"
    using length_dropWhile_le [of "\<lambda>c. \<not> is_space c" s] by simp
  moreover have "length (dropWhile is_space rest) \<le> length rest"
    by (rule length_dropWhile_le)
  ultimately show "(dropWhile is_space rest, s) \<in> measure length"
    by simp
qed simp

declare split_ws.simps [simp del]

section \<open>Nodes (dom.ts)\<close>

text \<open>
  A \<^verbatim>\<open>Node\<close> has a tag, an attribute \<^verbatim>\<open>Map\<close>, a child array and a text. The
  \<^verbatim>\<open>Map\<close> is an association list in insertion order with unique keys. The
  \<^verbatim>\<open>parent\<close> back-reference is not stored: a node is identified by its position
  (the list of child indices leading to it), which determines its parent.
\<close>

type_synonym attr_map = "(string \<times> string) list"

definition map_set :: "string \<Rightarrow> string \<Rightarrow> attr_map \<Rightarrow> attr_map" where
  "map_set k v m = (if k \<in> fst ` set m then map (\<lambda>(k', v'). if k' = k then (k', v) else (k', v')) m
                    else m @ [(k, v)])"

definition map_get :: "attr_map \<Rightarrow> string \<Rightarrow> string option" where
  "map_get m k = map_of m k"

definition map_has :: "attr_map \<Rightarrow> string \<Rightarrow> bool" where
  "map_has m k \<longleftrightarrow> k \<in> fst ` set m"

datatype node = Node (tag: string) (attrs: attr_map) (children: "node list") (node_text: string)

type_synonym path = "nat list"
type_synonym located = "path \<times> node"

definition child_nodes :: "located \<Rightarrow> located list" where
  "child_nodes ln = map (\<lambda>(k, c). (fst ln @ [k], c)) (enumerate 0 (children (snd ln)))"

text \<open>All proper descendants of a node, in document order (depth-first, pre-order).\<close>

function descendants :: "path \<Rightarrow> node \<Rightarrow> located list" where
  "descendants p (Node tg at cs tx) =
     concat (map (\<lambda>(k, c). (p @ [k], c) # descendants (p @ [k]) c) (enumerate 0 cs))"
  by pat_completeness auto
termination
proof (relation "measure (\<lambda>(p, n). size n)")
  fix p :: path and tg at cs tx and x :: "nat \<times> node" and k c
  assume "x \<in> set (enumerate 0 cs)" and "(k, c) = x"
  then have "c \<in> set cs"
    by (auto simp: in_set_enumerate_eq)
  then have "size c < Suc (size_list size cs)"
    by (simp add: less_Suc_eq_le size_list_estimation')
  then show "((p @ [k], c), (p, Node tg at cs tx)) \<in> measure (\<lambda>(p, n). size n)"
    by simp
qed simp

section \<open>Selector matchers (query.ts)\<close>

text \<open>
  \<^verbatim>\<open>compileMatcher\<close> returns one of five closures; the datatype names the closure
  and \<open>matches\<close> is what calling it computes.
\<close>

datatype matcher =
    IdIs string
  | HasClass string
  | HasAttr string
  | AttrIs string string
  | TagIs string

definition is_sel_name_char :: "char \<Rightarrow> bool" where
  "is_sel_name_char c \<longleftrightarrow> is_lower c \<or> is_upper c \<or> is_digit c \<or> c = CHR ''_'' \<or> c = CHR ''-''"

definition is_quote :: "char \<Rightarrow> bool" where
  "is_quote c \<longleftrightarrow> c = CHR 0x22 \<or> c = CHR 0x27"

definition is_sel_value_char :: "char \<Rightarrow> bool" where
  "is_sel_value_char c \<longleftrightarrow> \<not> is_quote c \<and> c \<noteq> CHR '']''"

definition skip_quote :: "string \<Rightarrow> string" where
  "skip_quote s = (case s of [] \<Rightarrow> [] | q # r \<Rightarrow> if is_quote q then r else s)"

text \<open>The match of \<^verbatim>\<open>/^\[([a-zA-Z0-9_-]+)(?:=["']?([^"'\]]+)["']?)?\]$/\<close>: the name and,
  when the value part took part in the match, the value. Each class is followed by a
  character outside it, so every greedy run is the maximal one.\<close>

definition attr_selector_match :: "string \<Rightarrow> (string \<times> string option) option" where
  "attr_selector_match s =
     (case s of
        [] \<Rightarrow> None
      | b # r0 \<Rightarrow>
          if b \<noteq> CHR ''['' then None
          else let name = takeWhile is_sel_name_char r0;
                   r1 = dropWhile is_sel_name_char r0
               in if name = [] then None
                  else if r1 = '']'' then Some (name, None)
                  else (case r1 of
                          [] \<Rightarrow> None
                        | e # r2 \<Rightarrow>
                            if e \<noteq> CHR ''='' then None
                            else let r3 = skip_quote r2;
                                     v = takeWhile is_sel_value_char r3;
                                     r4 = skip_quote (dropWhile is_sel_value_char r3)
                                 in if v \<noteq> [] \<and> r4 = '']'' then Some (name, Some v) else None))"

definition compileMatcher :: "string \<Rightarrow> matcher" where
  "compileMatcher selector =
     (if prefix ''#'' selector then IdIs (drop 1 selector)
      else if prefix ''.'' selector then HasClass (drop 1 selector)
      else (case attr_selector_match selector of
              Some (name, None) \<Rightarrow> HasAttr name
            | Some (name, Some expected) \<Rightarrow> AttrIs name expected
            | None \<Rightarrow> TagIs (toLowerCase selector)))"

definition class_list :: "node \<Rightarrow> string list" where
  "class_list n = filter (\<lambda>w. w \<noteq> [])
     (split_ws (case map_get (attrs n) ''class'' of None \<Rightarrow> [] | Some raw \<Rightarrow> raw))"

text \<open>The two \<^verbatim>\<open>WeakMap\<close> caches, keyed by node identity.\<close>

record caches =
  classListCache :: "located \<rightharpoonup> string list"
  tagLowerCache :: "located \<rightharpoonup> string"

definition no_caches :: caches where
  "no_caches = \<lparr> classListCache = Map.empty, tagLowerCache = Map.empty \<rparr>"

text \<open>Calling a compiled matcher on a node: the answer and the caches afterwards. A cached
  class list is used whenever present (an empty array is truthy); a cached tag is used
  only when it is a non-empty string.\<close>

fun run_matcher :: "matcher \<Rightarrow> located \<Rightarrow> caches \<Rightarrow> bool \<times> caches" where
  "run_matcher (IdIs ident) ln c = (map_get (attrs (snd ln)) ''id'' = Some ident, c)"
| "run_matcher (HasClass cls) ln c =
     (case classListCache c ln of
        Some list \<Rightarrow> (cls \<in> set list, c)
      | None \<Rightarrow> (let list = class_list (snd ln)
                 in (cls \<in> set list, c\<lparr>classListCache := (classListCache c)(ln \<mapsto> list)\<rparr>)))"
| "run_matcher (HasAttr name) ln c = (map_has (attrs (snd ln)) name, c)"
| "run_matcher (AttrIs name expected) ln c = (map_get (attrs (snd ln)) name = Some expected, c)"
| "run_matcher (TagIs tg) ln c =
     (case (case tagLowerCache c ln of None \<Rightarrow> None | Some t \<Rightarrow> if t = [] then None else Some t) of
        Some cached \<Rightarrow> (cached = tg, c)
      | None \<Rightarrow> (let cached = toLowerCase (tag (snd ln))
                 in (cached = tg, c\<lparr>tagLowerCache := (tagLowerCache c)(ln \<mapsto> cached)\<rparr>)))"

text \<open>What a matcher computes on a node when the caches hold nothing about it.\<close>

fun matches :: "matcher \<Rightarrow> node \<Rightarrow> bool" where
  "matches (IdIs ident) n \<longleftrightarrow> map_get (attrs n) ''id'' = Some ident"
| "matches (HasClass cls) n \<longleftrightarrow> cls \<in> set (class_list n)"
| "matches (HasAttr name) n \<longleftrightarrow> map_has (attrs n) name"
| "matches (AttrIs name expected) n \<longleftrightarrow> map_get (attrs n) name = Some expected"
| "matches (TagIs tg) n \<longleftrightarrow> toLowerCase (tag n) = tg"

section \<open>querySelectorAll (query.ts)\<close>

text \<open>
  The work stack holds \<^verbatim>\<open>{node, index}\<close> entries; its top is the head of the list,
  so \<^verbatim>\<open>push\<close> is \<open>#\<close> and \<^verbatim>\<open>pop\<close> takes the head. \<open>scan_children\<close> is the
  \<^verbatim>\<open>for (const child of node.children)\<close> loop of one iteration.
\<close>

type_synonym entry = "located \<times> nat"

fun scan_children ::
  "matcher \<Rightarrow> bool \<Rightarrow> nat \<Rightarrow> located list \<Rightarrow> located list \<times> entry list \<times> caches
    \<Rightarrow> located list \<times> entry list \<times> caches" where
  "scan_children m isLast index [] st = st"
| "scan_children m isLast index (child # rest) (results, stack, c) =
     (case run_matcher m child c of
        (True, c') \<Rightarrow>
          if isLast then scan_children m isLast index rest (results @ [child], (child, index) # stack, c')
          else scan_children m isLast index rest
                 (results, (child, index) # (child, index + 1) # stack, c')
      | (False, c') \<Rightarrow> scan_children m isLast index rest (results, (child, index) # stack, c'))"

fun weight :: "node \<Rightarrow> nat" where
  "weight (Node tg at cs tx) = Suc (2 * sum_list (map weight cs))"

definition stack_weight :: "entry list \<Rightarrow> nat" where
  "stack_weight stack = sum_list (map (\<lambda>e. weight (snd (fst e))) stack)"

lemma weight_pos: "0 < weight n"
  by (cases n) simp

lemma scan_children_weight:
  "scan_children m isLast index cs (results, stack, c) = (results', stack', c') \<Longrightarrow>
   stack_weight stack' \<le> stack_weight stack + 2 * sum_list (map (\<lambda>ln. weight (snd ln)) cs)"
proof (induction cs arbitrary: results stack c)
  case Nil
  then show ?case by simp
next
  case (Cons child rest)
  obtain b c1 where rm: "run_matcher m child c = (b, c1)"
    by (cases "run_matcher m child c")
  show ?case
  proof (cases "b \<and> \<not> isLast")
    case True
    with Cons.prems rm have
      "scan_children m isLast index rest (results, (child, index) # (child, index + 1) # stack, c1)
        = (results', stack', c')"
      by simp
    from Cons.IH [OF this] show ?thesis
      by (simp add: stack_weight_def)
  next
    case False
    with Cons.prems rm obtain r1 where
      "scan_children m isLast index rest (r1, (child, index) # stack, c1) = (results', stack', c')"
      by (cases b) (auto split: if_splits)
    from Cons.IH [OF this] show ?thesis
      by (simp add: stack_weight_def)
  qed
qed

lemma weight_child_nodes:
  "sum_list (map (\<lambda>ln. weight (snd ln)) (child_nodes ln)) = sum_list (map weight (children (snd ln)))"
proof -
  have "map (\<lambda>ln. weight (snd ln)) (child_nodes ln) = map weight (map snd (enumerate 0 (children (snd ln))))"
    unfolding child_nodes_def map_map by (simp add: case_prod_unfold comp_def)
  then show ?thesis by simp
qed

function query_loop :: "matcher list \<Rightarrow> entry list \<Rightarrow> located list \<Rightarrow> caches \<Rightarrow> located list \<times> caches" where
  "query_loop matchers [] results c = (results, c)"
| "query_loop matchers ((node, index) # stack) results c =
     (if index < length matchers then
        (case scan_children (matchers ! index) (index + 1 = length matchers) index
                (child_nodes node) (results, stack, c) of
           (results', stack', c') \<Rightarrow> query_loop matchers stack' results' c')
      else query_loop matchers stack results c)"
  by pat_completeness auto
termination
proof (relation "measure (\<lambda>(ms, stack, results, c). stack_weight stack)")
  fix matchers :: "matcher list" and node :: located and index stack and results :: "located list"
    and c :: caches and results' y stack' c'
  assume "index < length matchers"
    and "(results', y) = scan_children (matchers ! index) (index + 1 = length matchers) index
                (child_nodes node) (results, stack, c)"
    and "(stack', c') = y"
  then have "scan_children (matchers ! index) (index + 1 = length matchers) index
                (child_nodes node) (results, stack, c) = (results', stack', c')"
    by simp
  from scan_children_weight [OF this]
  have "stack_weight stack' \<le> stack_weight stack + 2 * sum_list (map weight (children (snd node)))"
    by (simp add: weight_child_nodes)
  moreover have "weight (snd node) = Suc (2 * sum_list (map weight (children (snd node))))"
    by (cases "snd node") simp
  ultimately show "((matchers, stack', results', c'), (matchers, (node, index) # stack, results, c))
      \<in> measure (\<lambda>(ms, stack, results, c). stack_weight stack)"
    by (simp add: stack_weight_def)
qed (simp_all add: stack_weight_def weight_pos)

declare query_loop.simps [simp del]

definition querySelectorAll :: "located \<Rightarrow> string \<Rightarrow> caches \<Rightarrow> located list \<times> caches" where
  "querySelectorAll root selector c =
     (let parts = split_ws (trim selector);
          matchers = map compileMatcher parts
      in query_loop matchers [(root, 0)] [] c)"

section \<open>Serialisation (dom.ts)\<close>

definition join_with :: "string \<Rightarrow> string list \<Rightarrow> string" where
  "join_with sep xs = (case xs of [] \<Rightarrow> [] | x # rest \<Rightarrow> x @ concat (map (\<lambda>y. sep @ y) rest))"

fun getText :: "node \<Rightarrow> string" where
  "getText (Node tg at cs tx) = (if tx \<noteq> [] then tx else concat (map getText cs))"

definition attr_string :: "attr_map \<Rightarrow> string" where
  "attr_string at = join_with '' '' (map (\<lambda>(k, v). k @ [CHR ''='', CHR 0x22] @ v @ [CHR 0x22]) at)"

fun toString :: "node \<Rightarrow> string" where
  "toString (Node tg at cs tx) =
     (if tx \<noteq> [] then tx
      else let as = attr_string at;
               attrStr = (if as \<noteq> [] then '' '' @ as else [])
           in ''<'' @ tg @ attrStr @ ''>'' @ concat (map toString cs) @ ''</'' @ tg @ ''>'')"

definition getInnerHTML :: "node \<Rightarrow> string" where
  "getInnerHTML n = concat (map toString (children n))"

section \<open>Tokens (tokenizer.ts) and the tree builder (dom.ts)\<close>

datatype token_type = TOpen | TClose | TText | TSelfClosing

record token =
  tok_type :: token_type
  tok_tag :: "string option"
  tok_attrs :: "attr_map option"
  tok_content :: "string option"

text \<open>
  The builder's stack holds references to nodes of the tree under construction; a
  reference is the node's position in that tree, and \<^verbatim>\<open>current.children.push(node)\<close>
  is an update of the tree at the position. The top of the stack is the head of the list.
  A position on the stack is always a node of the tree (\<open>build_inv_run\<close> below), so the
  case \<open>None\<close> of \<open>node_at\<close> in \<open>build_step\<close> never arises; the empty stack is the
  source's \<^verbatim>\<open>if (!current) continue\<close>.
\<close>

fun node_at :: "node \<Rightarrow> path \<Rightarrow> node option" where
  "node_at n [] = Some n"
| "node_at (Node tg at cs tx) (k # p) = (if k < length cs then node_at (cs ! k) p else None)"

fun update_at :: "path \<Rightarrow> (node \<Rightarrow> node) \<Rightarrow> node \<Rightarrow> node" where
  "update_at [] f n = f n"
| "update_at (k # p) f (Node tg at cs tx) =
     (if k < length cs then Node tg at (cs[k := update_at p f (cs ! k)]) tx else Node tg at cs tx)"

definition push_child :: "node \<Rightarrow> node \<Rightarrow> node" where
  "push_child c n = Node (tag n) (attrs n) (children n @ [c]) (node_text n)"

type_synonym build_state = "node \<times> path list"

definition new_element :: "token \<Rightarrow> node" where
  "new_element t = Node (case tok_tag t of None \<Rightarrow> [] | Some tg \<Rightarrow> tg)
                        (case tok_attrs t of None \<Rightarrow> [] | Some at \<Rightarrow> at) [] []"

definition build_step :: "build_state \<Rightarrow> token \<Rightarrow> build_state" where
  "build_step st t =
     (case st of (root, stack) \<Rightarrow>
       (case stack of
          [] \<Rightarrow> (root, stack)
        | cur # below \<Rightarrow>
           (case node_at root cur of
              None \<Rightarrow> (root, stack)
            | Some current \<Rightarrow>
               (case tok_type t of
                  TText \<Rightarrow>
                    (case tok_content t of
                       None \<Rightarrow> (root, stack)
                     | Some content \<Rightarrow>
                         if content = [] then (root, stack)
                         else (update_at cur (push_child (Node [] [] [] content)) root, stack))
                | TOpen \<Rightarrow>
                    (update_at cur (push_child (new_element t)) root,
                     (cur @ [length (children current)]) # stack)
                | TSelfClosing \<Rightarrow> (update_at cur (push_child (new_element t)) root, stack)
                | TClose \<Rightarrow>
                    if length stack > 1 \<and> Some (tag current) = tok_tag t then (root, below)
                    else (root, stack)))))"

definition build_init :: build_state where
  "build_init = (Node ''document'' [] [] [], [[]])"

definition build_run :: "token list \<Rightarrow> build_state" where
  "build_run tokens = foldl build_step build_init tokens"

definition buildTree :: "token list \<Rightarrow> node" where
  "buildTree tokens = fst (build_run tokens)"

section \<open>The tokenizer (tokenizer.ts)\<close>

text \<open>
  \<^verbatim>\<open>s.indexOf(pat, from)\<close> for a non-empty \<open>pat\<close> (the tokenizer searches for nothing
  else): \<open>None\<close> is the source's \<open>-1\<close>. \<^verbatim>\<open>s.slice(a, b)\<close> for indices that are not
  negative.
\<close>

fun index_in :: "string \<Rightarrow> string \<Rightarrow> nat option" where
  "index_in pat [] = None"
| "index_in pat (c # cs) = (if prefix pat (c # cs) then Some 0 else map_option Suc (index_in pat cs))"

definition indexOf :: "string \<Rightarrow> string \<Rightarrow> nat \<Rightarrow> nat option" where
  "indexOf s pat from = map_option (\<lambda>k. from + k) (index_in pat (drop from s))"

definition slice :: "string \<Rightarrow> nat \<Rightarrow> nat \<Rightarrow> string" where
  "slice s a b = take (b - a) (drop a s)"

definition selfClosingTags :: "string list" where
  "selfClosingTags = [''area'', ''base'', ''br'', ''col'', ''embed'', ''hr'', ''img'', ''input'',
     ''link'', ''meta'', ''param'', ''source'', ''track'', ''wbr'']"

definition text_token :: "string \<Rightarrow> token" where
  "text_token content = \<lparr> tok_type = TText, tok_tag = None, tok_attrs = None, tok_content = Some content \<rparr>"

definition close_token :: "string \<Rightarrow> token" where
  "close_token tg = \<lparr> tok_type = TClose, tok_tag = Some tg, tok_attrs = None, tok_content = None \<rparr>"

definition tag_token :: "bool \<Rightarrow> string \<Rightarrow> attr_map \<Rightarrow> token" where
  "tag_token isSelfClosing tg at =
     \<lparr> tok_type = (if isSelfClosing then TSelfClosing else TOpen), tok_tag = Some tg,
       tok_attrs = (if at \<noteq> [] then Some at else None), tok_content = None \<rparr>"

text \<open>The class \<^verbatim>\<open>[a-zA-Z0-9-_:]\<close> of \<^verbatim>\<open>nameMatch\<close>.\<close>

definition is_tag_name_char :: "char \<Rightarrow> bool" where
  "is_tag_name_char c \<longleftrightarrow>
     is_lower c \<or> is_upper c \<or> is_digit c \<or> c = CHR ''-'' \<or> c = CHR ''_'' \<or> c = CHR '':''"

text \<open>\<^verbatim>\<open>/\/\s*$/\<close>: a slash followed by nothing but whitespace. Such a slash is the last
  slash of the string, so \<^verbatim>\<open>test\<close> looks at the last character that is not whitespace
  and \<^verbatim>\<open>replace(..., '')\<close> cuts the string before it.\<close>

definition slash_at_end :: "string \<Rightarrow> bool" where
  "slash_at_end s = (case dropWhile is_space (rev s) of [] \<Rightarrow> False | c # _ \<Rightarrow> c = CHR ''/'')"

definition strip_slash_at_end :: "string \<Rightarrow> string" where
  "strip_slash_at_end s = (if slash_at_end s then rev (tl (dropWhile is_space (rev s))) else s)"

text \<open>
  One \<^verbatim>\<open>attrRegex.exec\<close> on the rest of \<^verbatim>\<open>attrPart\<close>, for
  \<^verbatim>\<open>/([^\s=]+)(?:\s*=\s*(?:"([^"]*)"|'([^']*)'|([^\s"'>]+)))?/g\<close>. The match starts
  at the first character that is neither whitespace nor \<^verbatim>\<open>=\<close> and the name is the
  maximal run of such characters. \<open>attr_value\<close> is the optional group on what follows the
  name: the value and the rest after the match, or \<open>None\<close> when the group does not match
  (a quote that is never closed, no value after the equals sign), in which case the match
  ends after the name and the value is the empty string.
\<close>

definition is_attr_name_char :: "char \<Rightarrow> bool" where
  "is_attr_name_char c \<longleftrightarrow> \<not> is_space c \<and> c \<noteq> CHR ''=''"

definition is_unquoted_char :: "char \<Rightarrow> bool" where
  "is_unquoted_char c \<longleftrightarrow> \<not> is_space c \<and> \<not> is_quote c \<and> c \<noteq> CHR ''>''"

definition quoted_value :: "char \<Rightarrow> string \<Rightarrow> (string \<times> string) option" where
  "quoted_value q r =
     (if q \<in> set r then Some (takeWhile (\<lambda>c. c \<noteq> q) r, drop 1 (dropWhile (\<lambda>c. c \<noteq> q) r)) else None)"

definition attr_value :: "string \<Rightarrow> (string \<times> string) option" where
  "attr_value r =
     (case dropWhile is_space r of
        [] \<Rightarrow> None
      | e # r1 \<Rightarrow>
          if e \<noteq> CHR ''='' then None
          else (case dropWhile is_space r1 of
                  [] \<Rightarrow> None
                | q # r2 \<Rightarrow>
                    if is_quote q then quoted_value q r2
                    else let v = takeWhile is_unquoted_char (q # r2)
                         in if v = [] then None else Some (v, dropWhile is_unquoted_char (q # r2))))"

lemma attr_value_shorter: "attr_value r = Some (v, rest) \<Longrightarrow> length rest \<le> length r"
proof -
  assume a: "attr_value r = Some (v, rest)"
  then obtain e r1 where r1: "dropWhile is_space r = e # r1"
    by (auto simp: attr_value_def split: list.splits)
  with a obtain q r2 where r2: "dropWhile is_space r1 = q # r2"
    by (auto simp: attr_value_def split: list.splits if_splits)
  have l1: "length r1 < length r"
    using length_dropWhile_le [of is_space r] r1 by simp
  have l2: "length r2 < length r1"
    using length_dropWhile_le [of is_space r1] r2 by simp
  have "length rest \<le> length (q # r2)"
  proof (cases "is_quote q")
    case True
    with a r1 r2 have "rest = drop 1 (dropWhile (\<lambda>c. c \<noteq> q) r2)"
      by (auto simp: attr_value_def quoted_value_def split: if_splits)
    then show ?thesis
      using length_dropWhile_le [of "\<lambda>c. c \<noteq> q" r2] by simp
  next
    case False
    with a r1 r2 have "rest = dropWhile is_unquoted_char (q # r2)"
      by (auto simp: attr_value_def Let_def split: if_splits)
    then show ?thesis
      using length_dropWhile_le [of is_unquoted_char "q # r2"] by simp
  qed
  with l1 l2 show ?thesis by simp
qed

text \<open>The \<^verbatim>\<open>while (m !== null)\<close> loop over the matches; \<open>s\<close> is \<^verbatim>\<open>attrPart\<close> from
  \<^verbatim>\<open>lastIndex\<close> on.\<close>

function parse_attrs :: "string \<Rightarrow> attr_map \<Rightarrow> attr_map" where
  "parse_attrs s at =
     (case dropWhile (\<lambda>c. \<not> is_attr_name_char c) s of
        [] \<Rightarrow> at
      | c # cs \<Rightarrow>
          let name = toLowerCase (takeWhile is_attr_name_char (c # cs));
              after = dropWhile is_attr_name_char (c # cs)
          in (case attr_value after of
                Some (v, rest) \<Rightarrow> parse_attrs rest (if name \<noteq> [] then map_set name v at else at)
              | None \<Rightarrow> parse_attrs after (if name \<noteq> [] then map_set name [] at else at)))"
  by pat_completeness auto
termination
proof (relation "measure (\<lambda>(s, at). length s)")
  fix s :: string and at :: attr_map and c cs name after
  assume d: "dropWhile (\<lambda>c. \<not> is_attr_name_char c) s = c # cs"
    and after: "after = dropWhile is_attr_name_char (c # cs)"
  from d have "is_attr_name_char c"
    using hd_dropWhile [of "\<lambda>c. \<not> is_attr_name_char c" s] by auto
  with after have "length after \<le> length cs"
    using length_dropWhile_le [of is_attr_name_char cs] by simp
  moreover have "length (c # cs) \<le> length s"
    using length_dropWhile_le [of "\<lambda>c. \<not> is_attr_name_char c" s] d by simp
  ultimately have lt: "length after < length s"
    by simp
  then show "((after, if name \<noteq> [] then map_set name [] at else at), s, at) \<in> measure (\<lambda>(s, at). length s)"
    by simp
  fix x v rest
  assume "attr_value after = Some x" and "(v, rest) = x"
  then have "length rest \<le> length after"
    using attr_value_shorter [of after v rest] by simp
  with lt show "((rest, if name \<noteq> [] then map_set name v at else at), s, at) \<in> measure (\<lambda>(s, at). length s)"
    by simp
qed simp

declare parse_attrs.simps [simp del]

text \<open>
  One pass through the body of \<^verbatim>\<open>while (i < length)\<close>: \<open>Inl\<close> is a \<^verbatim>\<open>break\<close> with
  the tokens at that point, \<open>Inr\<close> the next value of \<open>i\<close> with the tokens.
\<close>

definition push_text :: "string \<Rightarrow> token list \<Rightarrow> token list" where
  "push_text txt tokens = (if txt \<noteq> [] then tokens @ [text_token txt] else tokens)"

definition tokenize_tag :: "string \<Rightarrow> nat \<Rightarrow> nat \<Rightarrow> token list \<Rightarrow> nat \<times> token list" where
  "tokenize_tag html lt gt tokens =
     (let tagRaw = trim (slice html (lt + 1) gt)
      in if prefix ''!--'' tagRaw then
           (case indexOf html ''-->'' (lt + 4) of
              None \<Rightarrow> (gt + 1, tokens)
            | Some endComment \<Rightarrow> (endComment + 3, tokens))
         else if prefix ''!'' tagRaw then (gt + 1, tokens)
         else if prefix ''/'' tagRaw then
           (let tagName = toLowerCase (trim (drop 1 tagRaw))
            in (gt + 1, if tagName \<noteq> [] then tokens @ [close_token tagName] else tokens))
         else
           (let nameMatch = takeWhile is_tag_name_char tagRaw
            in if nameMatch = [] then (gt + 1, tokens)
               else
                 (let tg = toLowerCase nameMatch
                  in if tg = ''script'' \<or> tg = ''style'' then
                       (case indexOf html (''</'' @ tg @ ''>'') (gt + 1) of
                          None \<Rightarrow> (gt + 1, tokens)
                        | Some closeIdx \<Rightarrow> (closeIdx + length tg + 3, tokens))
                     else
                       (let attrPart = strip_slash_at_end (trim (drop (length tg) tagRaw));
                            at = (if attrPart \<noteq> [] then parse_attrs attrPart [] else []);
                            isSelfClosing = (slash_at_end tagRaw \<or> tg \<in> set selfClosingTags)
                        in (gt + 1, tokens @ [tag_token isSelfClosing tg at])))))"

definition tokenize_step :: "string \<Rightarrow> nat \<Rightarrow> token list \<Rightarrow> token list + nat \<times> token list" where
  "tokenize_step html i tokens =
     (case indexOf html ''<'' i of
        None \<Rightarrow> Inl (push_text (drop i html) tokens)
      | Some lt \<Rightarrow>
          (let tokens1 = (if lt > i then push_text (slice html i lt) tokens else tokens)
           in case indexOf html ''>'' (lt + 1) of
                None \<Rightarrow> Inl tokens1
              | Some gt \<Rightarrow> Inr (tokenize_tag html lt gt tokens1)))"

text \<open>The loop: \<open>None\<close> would be a run that never ends.\<close>

partial_function (option) tokenize_loop :: "string \<Rightarrow> nat \<Rightarrow> token list \<Rightarrow> token list option" where
  "tokenize_loop html i tokens =
     (if i < length html then
        (case tokenize_step html i tokens of
           Inl tokens' \<Rightarrow> Some tokens'
         | Inr (i', tokens') \<Rightarrow> tokenize_loop html i' tokens')
      else Some tokens)"

declare tokenize_loop.simps [code]

definition tokenize :: "string \<Rightarrow> token list option" where
  "tokenize html = tokenize_loop html 0 []"

text \<open>\<^verbatim>\<open>parseHTML\<close> (parser.ts): the document wrapper of the tree built from the tokens.\<close>

definition parseHTML :: "string \<Rightarrow> located option" where
  "parseHTML html = (case tokenize html of None \<Rightarrow> None | Some tokens \<Rightarrow> Some ([], buildTree tokens))"

section \<open>The query facade (parser.ts)\<close>

text \<open>
  An \<^verbatim>\<open>ElementWrapper\<close> or \<^verbatim>\<open>DocumentWrapper\<close> is the located node it wraps. The
  results of \<^verbatim>\<open>querySelectorAll\<close> do not depend on the state of the caches
  (\<open>querySelectorAll_visit\<close> below), so the facade runs it on the empty ones.
\<close>

definition wrapper_text :: "located \<Rightarrow> string" where
  "wrapper_text el = trim (getText (snd el))"

definition wrapper_html :: "located \<Rightarrow> string" where
  "wrapper_html el = getInnerHTML (snd el)"

definition wrapper_attr :: "located \<Rightarrow> string \<Rightarrow> string option" where
  "wrapper_attr el name = map_get (attrs (snd el)) name"

definition select :: "located \<Rightarrow> string \<Rightarrow> located list" where
  "select ctx selector = fst (querySelectorAll ctx selector no_caches)"

definition selectOne :: "located \<Rightarrow> string \<Rightarrow> located option" where
  "selectOne ctx selector =
     (case fst (querySelectorAll ctx selector no_caches) of [] \<Rightarrow> None | first # _ \<Rightarrow> Some first)"

section \<open>The extraction engine (extractor.ts)\<close>

text \<open>
  The engine itself produces strings, \<^verbatim>\<open>null\<close>, arrays and objects; defaults and
  transforms may bring in booleans and numbers (of which the integers are modelled). A
  transform either returns a value or throws; what it throws is modelled by the message
  the engine reads off it (\<^verbatim>\<open>err.message\<close> or \<^verbatim>\<open>String(err)\<close>), and a thrown
  \<^verbatim>\<open>Error\<close> is \<open>Inl\<close> of its message. A schema is the list of its entries in the order
  in which \<^verbatim>\<open>for ... in\<close> visits them.
\<close>

datatype jsval =
    JNull
  | JBoolean bool
  | JNumber int
  | JString string
  | JArray "jsval list"
  | JObject "(string \<times> jsval) list"

type_synonym transformFn = "jsval \<Rightarrow> string + jsval"

datatype fieldSchema =
    SingleField string "string option" "jsval option" "transformFn option"
  | MultipleField string "string option" "jsval list option" "transformFn option" "int option"
  | NestedField string "(string \<times> fieldSchema) list" "bool option" "int option"

type_synonym schema = "(string \<times> fieldSchema) list"

definition extractValue :: "located \<Rightarrow> string \<Rightarrow> jsval" where
  "extractValue el attr =
     (if attr = ''text'' then JString (wrapper_text el)
      else if attr = ''html'' then JString (wrapper_html el)
      else (case wrapper_attr el attr of None \<Rightarrow> JNull | Some v \<Rightarrow> JString v))"

definition safeTransform :: "transformFn \<Rightarrow> jsval \<Rightarrow> string + jsval" where
  "safeTransform fn val = (case fn val of Inl msg \<Rightarrow> Inl (''Transform failed: '' @ msg) | Inr r \<Rightarrow> Inr r)"

text \<open>\<^verbatim>\<open>els.slice(0, end)\<close>: a negative \<open>end\<close> counts from the end of the array.\<close>

definition slice0 :: "int \<Rightarrow> 'a list \<Rightarrow> 'a list" where
  "slice0 e els = (if e < 0 then take (nat (int (length els) + e)) els else take (nat e) els)"

text \<open>\<^verbatim>\<open>f.limit ? els.slice(0, f.limit) : els\<close>: an absent limit and the limit 0 are falsy.\<close>

definition limited :: "int option \<Rightarrow> 'a list \<Rightarrow> 'a list" where
  "limited lim els = (case lim of None \<Rightarrow> els | Some k \<Rightarrow> if k \<noteq> 0 then slice0 k els else els)"

definition attr_or_text :: "string option \<Rightarrow> string" where
  "attr_or_text a = (case a of None \<Rightarrow> ''text'' | Some x \<Rightarrow> x)"

text \<open>\<open>single_raw\<close> and \<open>multiple_raw\<close> are the \<^verbatim>\<open>const raw\<close> of
  \<^verbatim>\<open>extractSingleSimple\<close> and \<^verbatim>\<open>extractMultipleSimple\<close>.\<close>

definition single_raw :: "string \<Rightarrow> string option \<Rightarrow> jsval option \<Rightarrow> located \<Rightarrow> jsval" where
  "single_raw selector attr dflt ctx =
     (case selectOne ctx selector of
        Some el \<Rightarrow> extractValue el (attr_or_text attr)
      | None \<Rightarrow> (case dflt of None \<Rightarrow> JNull | Some d \<Rightarrow> d))"

definition extractSingleSimple ::
  "string \<Rightarrow> string option \<Rightarrow> jsval option \<Rightarrow> transformFn option \<Rightarrow> located \<Rightarrow> string + jsval" where
  "extractSingleSimple selector attr dflt transform ctx =
     (let raw = single_raw selector attr dflt ctx
      in case transform of Some fn \<Rightarrow> safeTransform fn raw | None \<Rightarrow> Inr raw)"

definition multiple_raw ::
  "string \<Rightarrow> string option \<Rightarrow> jsval list option \<Rightarrow> int option \<Rightarrow> located \<Rightarrow> jsval list" where
  "multiple_raw selector attr dflt lim ctx =
     (let els = select ctx selector;
          lmt = limited lim els
      in if length lmt > 0
         then filter (\<lambda>v. v \<noteq> JNull) (map (\<lambda>el. extractValue el (attr_or_text attr)) lmt)
         else (case dflt of None \<Rightarrow> [] | Some d \<Rightarrow> d))"

definition extractMultipleSimple ::
  "string \<Rightarrow> string option \<Rightarrow> jsval list option \<Rightarrow> transformFn option \<Rightarrow> int option \<Rightarrow> located
    \<Rightarrow> string + jsval" where
  "extractMultipleSimple selector attr dflt transform lim ctx =
     (let raw = multiple_raw selector attr dflt lim ctx
      in case transform of Some fn \<Rightarrow> safeTransform fn (JArray raw) | None \<Rightarrow> Inr (JArray raw))"

text \<open>\<^verbatim>\<open>xs.map(f)\<close> where \<open>f\<close> may throw: the first exception ends the map.\<close>

fun map_throwing :: "('a \<Rightarrow> string + 'b) \<Rightarrow> 'a list \<Rightarrow> string + 'b list" where
  "map_throwing f [] = Inr []"
| "map_throwing f (x # xs) =
     (case f x of
        Inl e \<Rightarrow> Inl e
      | Inr y \<Rightarrow> (case map_throwing f xs of Inl e \<Rightarrow> Inl e | Inr ys \<Rightarrow> Inr (y # ys)))"

function extractField :: "fieldSchema \<Rightarrow> located \<Rightarrow> string + jsval"
  and extractSingleNested :: "string \<Rightarrow> schema \<Rightarrow> located \<Rightarrow> string + jsval"
  and extractMultipleNested :: "string \<Rightarrow> schema \<Rightarrow> int option \<Rightarrow> located \<Rightarrow> string + jsval"
  and buildNestedObject :: "schema \<Rightarrow> located \<Rightarrow> string + jsval"
  and nested_entries :: "schema \<Rightarrow> located \<Rightarrow> string + (string \<times> jsval) list" where
  "extractField (SingleField selector attr dflt transform) ctx =
     extractSingleSimple selector attr dflt transform ctx"
| "extractField (MultipleField selector attr dflt transform lim) ctx =
     extractMultipleSimple selector attr dflt transform lim ctx"
| "extractField (NestedField selector flds multiple lim) ctx =
     (if (case multiple of None \<Rightarrow> False | Some b \<Rightarrow> b)
      then extractMultipleNested selector flds lim ctx
      else extractSingleNested selector flds ctx)"
| "extractSingleNested selector flds ctx =
     (case selectOne ctx selector of Some el \<Rightarrow> buildNestedObject flds el | None \<Rightarrow> Inr JNull)"
| "extractMultipleNested selector flds lim ctx =
     (case map_throwing (\<lambda>el. buildNestedObject flds el) (limited lim (select ctx selector)) of
        Inl e \<Rightarrow> Inl e
      | Inr objs \<Rightarrow> Inr (JArray objs))"
| "buildNestedObject flds el =
     (case nested_entries flds el of Inl e \<Rightarrow> Inl e | Inr obj \<Rightarrow> Inr (JObject obj))"
| "nested_entries [] el = Inr []"
| "nested_entries ((key, sub) # rest) el =
     (case extractField sub el of
        Inl e \<Rightarrow> Inl e
      | Inr v \<Rightarrow> (case nested_entries rest el of Inl e \<Rightarrow> Inl e | Inr obj \<Rightarrow> Inr ((key, v) # obj)))"
  by pat_completeness auto
termination
  by (relation "measure (\<lambda>x. case x of
          Inl (Inl (f, ctx)) \<Rightarrow> 5 * size f
        | Inl (Inr (selector, flds, ctx)) \<Rightarrow> 5 * size_list (size_prod (\<lambda>k. 0) size) flds + 3
        | Inr (Inl (selector, flds, lim, ctx)) \<Rightarrow> 5 * size_list (size_prod (\<lambda>k. 0) size) flds + 3
        | Inr (Inr (Inl (flds, el))) \<Rightarrow> 5 * size_list (size_prod (\<lambda>k. 0) size) flds + 2
        | Inr (Inr (Inr (flds, el))) \<Rightarrow> 5 * size_list (size_prod (\<lambda>k. 0) size) flds + 1)")
     auto

declare buildNestedObject.simps [simp del]

text \<open>The loop of \<^verbatim>\<open>Extractor.extract\<close>: each field under its own \<^verbatim>\<open>try\<close>, the
  \<^verbatim>\<open>catch\<close> rethrowing with the field's key, which ends the loop. The exported function
  \<^verbatim>\<open>extract(doc, schema)\<close> is \<open>extractData\<close>, the name under which index.ts imports it.\<close>

text \<open>The message \<^verbatim>\<open>`Field "${String(key)}": ${msg}`\<close>.\<close>

definition field_error :: "string \<Rightarrow> string \<Rightarrow> string" where
  "field_error key msg = ''Field '' @ [CHR 0x22] @ key @ [CHR 0x22] @ '': '' @ msg"

fun extract_entries :: "schema \<Rightarrow> located \<Rightarrow> string + (string \<times> jsval) list" where
  "extract_entries [] doc = Inr []"
| "extract_entries ((key, field) # rest) doc =
     (case extractField field doc of
        Inl msg \<Rightarrow> Inl (field_error key msg)
      | Inr v \<Rightarrow> (case extract_entries rest doc of Inl e \<Rightarrow> Inl e | Inr result \<Rightarrow> Inr ((key, v) # result)))"

definition extractData :: "located \<Rightarrow> schema \<Rightarrow> string + jsval" where
  "extractData doc schema = (case extract_entries schema doc of Inl e \<Rightarrow> Inl e | Inr result \<Rightarrow> Inr (JObject result))"

section \<open>The order in which the query loop records its results\<close>

text \<open>
  \<open>visit ms i p n\<close> is what the loop appends to \<^verbatim>\<open>results\<close> from the moment it pops
  the entry \<^verbatim>\<open>{node: n, index: i}\<close> (with \<open>n\<close> at position \<open>p\<close>) until the stack is back
  to what lay below that entry: first the matching children in sibling order (when \<open>i\<close> is
  the last fragment), then, from the last child to the first, what the entries pushed for
  that child produce. \<open>pushed\<close> is the stack segment one scan of the children leaves.
\<close>

function visit :: "matcher list \<Rightarrow> nat \<Rightarrow> path \<Rightarrow> node \<Rightarrow> located list" where
  "visit ms i p (Node tg at cs tx) =
     (if i < length ms then
        (if i + 1 = length ms
         then filter (\<lambda>ln. matches (ms ! i) (snd ln)) (child_nodes (p, Node tg at cs tx)) else [])
        @ concat (map (\<lambda>(k, c). visit ms i (p @ [k]) c
                         @ (if matches (ms ! i) c \<and> i + 1 \<noteq> length ms
                            then visit ms (i + 1) (p @ [k]) c else []))
                    (rev (enumerate 0 cs)))
      else [])"
  by pat_completeness auto
termination
proof (relation "measure (\<lambda>(ms, i, p, n). size n)")
  fix cs :: "node list" and x :: "nat \<times> node" and k c
  assume "x \<in> set (rev (enumerate 0 cs))" and "(k, c) = x"
  then have "c \<in> set cs"
    by (auto simp: in_set_enumerate_eq)
  then have *: "size c < Suc (size_list size cs)"
    by (simp add: less_Suc_eq_le size_list_estimation')
  fix ms :: "matcher list" and i :: nat and p :: path and tg at tx
  show "((ms, i, p @ [k], c), (ms, i, p, Node tg at cs tx)) \<in> measure (\<lambda>(ms, i, p, n). size n)"
    using * by simp
  show "((ms, i + 1, p @ [k], c), (ms, i, p, Node tg at cs tx)) \<in> measure (\<lambda>(ms, i, p, n). size n)"
    using * by simp
qed simp

declare visit.simps [simp del]


definition visit_entry :: "matcher list \<Rightarrow> entry \<Rightarrow> located list" where
  "visit_entry ms e = visit ms (snd e) (fst (fst e)) (snd (fst e))"

definition pushed :: "matcher \<Rightarrow> bool \<Rightarrow> nat \<Rightarrow> located list \<Rightarrow> entry list" where
  "pushed m isLast i xs =
     concat (map (\<lambda>ch. (ch, i) # (if matches m (snd ch) \<and> \<not> isLast then [(ch, i + 1)] else [])) xs)"

text \<open>The caches hold only what the matchers would compute: true of the empty caches and
  kept by every call of a matcher.\<close>

definition caches_ok :: "caches \<Rightarrow> bool" where
  "caches_ok c \<longleftrightarrow>
     (\<forall>ln l. classListCache c ln = Some l \<longrightarrow> l = class_list (snd ln)) \<and>
     (\<forall>ln t. tagLowerCache c ln = Some t \<longrightarrow> t = toLowerCase (tag (snd ln)))"


text \<open>Example trees.\<close>

definition nested_divs :: node where
  "nested_divs = Node ''document'' []
     [Node ''div'' [] [Node ''div'' [] [Node ''span'' [] [] []] []] []] []"

definition nested_ps :: node where
  "nested_ps = Node ''document'' []
     [Node ''p'' [] [Node ''p'' [] [] []] [], Node ''p'' [] [] []] []"

definition one_text :: node where
  "one_text = Node ''document'' [] [Node ''p'' [] [Node [] [] [] ''hi''] []] []"


section \<open>Auxiliary definitions for the claims\<close>

text \<open>The invariant of the tree builder: the stack is never empty, its bottom entry is the
  synthetic root, and every entry is a position of the tree built so far.\<close>

definition build_inv :: "build_state \<Rightarrow> bool" where
  "build_inv st \<longleftrightarrow> snd st \<noteq> [] \<and> last (snd st) = [] \<and> list_all (\<lambda>p. node_at (fst st) p \<noteq> None) (snd st)"

definition open_token :: "string \<Rightarrow> token" where
  "open_token tg = \<lparr> tok_type = TOpen, tok_tag = Some tg, tok_attrs = None, tok_content = None \<rparr>"

text \<open>The values of a non-nested multiple field as claim C4 words them: the default
  replaces the sequence that is empty after the nulls are dropped.\<close>

definition claimed_multiple_values ::
  "string \<Rightarrow> string option \<Rightarrow> jsval list option \<Rightarrow> int option \<Rightarrow> located \<Rightarrow> jsval list" where
  "claimed_multiple_values selector attr dflt lim ctx =
     (let els = select ctx selector;
          chosen = (case lim of None \<Rightarrow> els | Some k \<Rightarrow> take (nat k) els);
          vals = filter (\<lambda>v. v \<noteq> JNull) (map (\<lambda>el. extractValue el (attr_or_text attr)) chosen)
      in if vals = [] then (case dflt of None \<Rightarrow> [] | Some d \<Rightarrow> d) else vals)"

text \<open>The same, amended: the default replaces the values only when no match was chosen,
  and a limit of 0 chooses all matches.\<close>

definition amended_multiple_values ::
  "string \<Rightarrow> string option \<Rightarrow> jsval list option \<Rightarrow> int option \<Rightarrow> located \<Rightarrow> jsval list" where
  "amended_multiple_values selector attr dflt lim ctx =
     (let els = select ctx selector;
          chosen = (case lim of None \<Rightarrow> els | Some k \<Rightarrow> if k = 0 then els else take (nat k) els)
      in if chosen = [] then (case dflt of None \<Rightarrow> [] | Some d \<Rightarrow> d)
         else filter (\<lambda>v. v \<noteq> JNull) (map (\<lambda>el. extractValue el (attr_or_text attr)) chosen))"

definition nonneg_limit :: "int option \<Rightarrow> bool" where
  "nonneg_limit lim = (case lim of None \<Rightarrow> True | Some k \<Rightarrow> 0 \<le> k)"

text \<open>A schema none of whose transforms throws, on any value.\<close>

fun never_throws :: "transformFn option \<Rightarrow> bool" where
  "never_throws None = True"
| "never_throws (Some fn) = (\<forall>v. \<exists>r. fn v = Inr r)"

fun quiet_field :: "fieldSchema \<Rightarrow> bool" where
  "quiet_field (SingleField selector attr dflt transform) = never_throws transform"
| "quiet_field (MultipleField selector attr dflt transform lim) = never_throws transform"
| "quiet_field (NestedField selector flds multiple lim) = (\<forall>f \<in> snd ` set flds. quiet_field f)"

text \<open>Attribute names without a capital letter: in an attribute map, in a token, in every
  node of a tree.\<close>

definition lower_keys :: "attr_map \<Rightarrow> bool" where
  "lower_keys at = list_all (\<lambda>kv. list_all (\<lambda>c. \<not> is_capital c) (fst kv)) at"

definition token_lower :: "token \<Rightarrow> bool" where
  "token_lower t = (case tok_attrs t of None \<Rightarrow> True | Some at \<Rightarrow> lower_keys at)"

fun tree_lower :: "node \<Rightarrow> bool" where
  "tree_lower (Node tg at cs tx) = (lower_keys at \<and> list_all tree_lower cs)"

text \<open>
  The subtrees that survive serialisation and parsing. A text leaf has a non-empty text
  without \<^verbatim>\<open><\<close> and nothing else. An element has a non-empty lower-case tag over the
  tokenizer's tag-name characters other than \<^verbatim>\<open>script\<close> and \<^verbatim>\<open>style\<close>; its attribute names
  are distinct, non-empty and lower-case, without whitespace, \<^verbatim>\<open>=\<close> or \<^verbatim>\<open>>\<close>; its
  attribute values hold neither a double quote nor \<^verbatim>\<open>>\<close>; no two of its children that are
  text leaves are adjacent; and a void tag has no children. \<open>node_tokens\<close> are the tokens
  such a subtree is expected to yield.
\<close>

definition is_text_leaf :: "node \<Rightarrow> bool" where
  "is_text_leaf n \<longleftrightarrow> node_text n \<noteq> []"

fun no_adjacent_text :: "node list \<Rightarrow> bool" where
  "no_adjacent_text (a # b # rest) = (\<not> (is_text_leaf a \<and> is_text_leaf b) \<and> no_adjacent_text (b # rest))"
| "no_adjacent_text [a] = True"
| "no_adjacent_text [] = True"

definition plain_tag :: "string \<Rightarrow> bool" where
  "plain_tag tg \<longleftrightarrow> tg \<noteq> [] \<and> list_all (\<lambda>c. is_tag_name_char c \<and> \<not> is_capital c) tg
     \<and> tg \<noteq> ''script'' \<and> tg \<noteq> ''style''"

definition plain_attr :: "string \<times> string \<Rightarrow> bool" where
  "plain_attr kv \<longleftrightarrow> fst kv \<noteq> []
     \<and> list_all (\<lambda>c. is_attr_name_char c \<and> \<not> is_capital c \<and> c \<noteq> CHR ''>'') (fst kv)
     \<and> list_all (\<lambda>c. c \<noteq> CHR 0x22 \<and> c \<noteq> CHR ''>'') (snd kv)"

fun plain_node :: "node \<Rightarrow> bool" where
  "plain_node (Node tg at cs tx) =
     (if tx \<noteq> [] then tg = [] \<and> at = [] \<and> cs = [] \<and> CHR ''<'' \<notin> set tx
      else plain_tag tg \<and> distinct (map fst at) \<and> list_all plain_attr at
           \<and> list_all plain_node cs \<and> no_adjacent_text cs
           \<and> (tg \<in> set selfClosingTags \<longrightarrow> cs = []))"

fun node_tokens :: "node \<Rightarrow> token list" where
  "node_tokens (Node tg at cs tx) =
     (if tx \<noteq> [] then [text_token tx]
      else tag_token (tg \<in> set selfClosingTags) tg at # concat (map node_tokens cs) @ [close_token tg])"

text \<open>The serialised attributes, each with the blank that precedes it, and the node a
  list of children is appended to.\<close>

definition attr_fmt :: "string \<times> string \<Rightarrow> string" where
  "attr_fmt kv = fst kv @ [CHR ''='', CHR 0x22] @ snd kv @ [CHR 0x22]"

definition attr_tail :: "attr_map \<Rightarrow> string" where
  "attr_tail at = concat (map (\<lambda>kv. CHR '' '' # attr_fmt kv) at)"

definition append_children :: "node list \<Rightarrow> node \<Rightarrow> node" where
  "append_children cs n = Node (tag n) (attrs n) (children n @ cs) (node_text n)"

text \<open>Example documents and a transform that always throws.\<close>

definition links_doc :: node where
  "links_doc = Node ''document'' []
     [Node ''a'' [(''href'', ''/x'')] [Node [] [] [] ''one''] [],
      Node ''a'' [] [Node [] [] [] ''two''] [],
      Node ''a'' [(''href'', ''/z'')] [Node [] [] [] ''three''] []] []"

definition no_href_doc :: node where
  "no_href_doc = Node ''document'' [] [Node ''a'' [] [Node [] [] [] ''two''] []] []"

definition boom :: transformFn where
  "boom v = Inl ''boom''"

definition quoted_html :: string where
  "quoted_html = ''<p title='' @ [CHR 0x27] @ ''say '' @ [CHR 0x22] @ ''hi'' @ [CHR 0x22, CHR 0x27] @ ''>x</p>''"

definition quoted_node :: node where
  "quoted_node = Node ''p'' [(''title'', ''say '' @ [CHR 0x22] @ ''hi'' @ [CHR 0x22])] [Node [] [] [] ''x''] []"

definition plain_example :: node where
  "plain_example = Node ''div'' [(''class'', ''a b''), (''id'', ''main'')]
     [Node ''span'' [] [Node [] [] [] ''Hi''] [], Node ''br'' [] [] [], Node [] [] [] '' there > ''] []"



section \<open>The query loop computes the visit order\<close>

lemma caches_ok_empty: "caches_ok no_caches"
  by (simp add: caches_ok_def no_caches_def)

lemma caches_ok_class:
  "caches_ok c \<Longrightarrow> caches_ok (c\<lparr>classListCache := (classListCache c)(ln \<mapsto> class_list (snd ln))\<rparr>)"
  by (auto simp: caches_ok_def)

lemma caches_ok_tag:
  "caches_ok c \<Longrightarrow> caches_ok (c\<lparr>tagLowerCache := (tagLowerCache c)(ln \<mapsto> toLowerCase (tag (snd ln)))\<rparr>)"
  by (auto simp: caches_ok_def)

lemma run_matcher_ok:
  assumes "caches_ok c"
  shows "fst (run_matcher m ln c) = matches m (snd ln) \<and> caches_ok (snd (run_matcher m ln c))"
proof (cases m)
  case (HasClass cls)
  show ?thesis
  proof (cases "classListCache c ln")
    case None
    with assms HasClass show ?thesis
      by (simp add: Let_def caches_ok_class)
  next
    case (Some l)
    with assms have "l = class_list (snd ln)"
      unfolding caches_ok_def by blast
    with assms HasClass Some show ?thesis
      by simp
  qed
next
  case (TagIs tg)
  show ?thesis
  proof (cases "tagLowerCache c ln")
    case None
    with assms TagIs show ?thesis
      by (simp add: Let_def caches_ok_tag)
  next
    case (Some t)
    with assms have t: "t = toLowerCase (tag (snd ln))"
      unfolding caches_ok_def by blast
    show ?thesis
    proof (cases "t = []")
      case True
      with assms TagIs Some show ?thesis
        by (simp add: Let_def caches_ok_tag)
    next
      case False
      with assms TagIs Some t show ?thesis
        by simp
    qed
  qed
qed (use assms in simp_all)

lemma pushed_append: "pushed m isLast i (xs @ ys) = pushed m isLast i xs @ pushed m isLast i ys"
  by (simp add: pushed_def)

lemma scan_children_eq:
  assumes "caches_ok c"
  shows "\<exists>c'. scan_children m isLast i cs (r, st, c) =
            (r @ (if isLast then filter (\<lambda>ln. matches m (snd ln)) cs else []),
             pushed m isLast i (rev cs) @ st, c') \<and> caches_ok c'"
  using assms
proof (induction cs arbitrary: r st c)
  case Nil
  then show ?case by (simp add: pushed_def)
next
  case (Cons child rest)
  obtain b c1 where rm: "run_matcher m child c = (b, c1)"
    by (cases "run_matcher m child c")
  with run_matcher_ok [OF Cons.prems, of m child] have b: "b = matches m (snd child)" and ok: "caches_ok c1"
    by simp_all
  show ?case
  proof (cases b)
    case True
    show ?thesis
    proof (cases isLast)
      case True
      from Cons.IH [OF ok, of "r @ [child]" "(child, i) # st"] obtain c' where
        "scan_children m isLast i rest (r @ [child], (child, i) # st, c1) =
            ((r @ [child]) @ (if isLast then filter (\<lambda>ln. matches m (snd ln)) rest else []),
             pushed m isLast i (rev rest) @ (child, i) # st, c')" "caches_ok c'"
        by blast
      with rm b \<open>b\<close> True show ?thesis
        by (simp add: pushed_append) (simp add: pushed_def)
    next
      case False
      from Cons.IH [OF ok, of r "(child, i) # (child, i + 1) # st"] obtain c' where
        "scan_children m isLast i rest (r, (child, i) # (child, i + 1) # st, c1) =
            (r @ (if isLast then filter (\<lambda>ln. matches m (snd ln)) rest else []),
             pushed m isLast i (rev rest) @ (child, i) # (child, i + 1) # st, c')" "caches_ok c'"
        by blast
      with rm b \<open>b\<close> False show ?thesis
        by (simp add: pushed_append) (simp add: pushed_def)
    qed
  next
    case False
    from Cons.IH [OF ok, of r "(child, i) # st"] obtain c' where
      "scan_children m isLast i rest (r, (child, i) # st, c1) =
          (r @ (if isLast then filter (\<lambda>ln. matches m (snd ln)) rest else []),
           pushed m isLast i (rev rest) @ (child, i) # st, c')" "caches_ok c'"
      by blast
    with rm b False show ?thesis
      by (simp add: pushed_append) (simp add: pushed_def)
  qed
qed

lemma concat_map_concat:
  "concat (map F (concat (map G xs))) = concat (map (\<lambda>x. concat (map F (G x))) xs)"
  by (induction xs) simp_all

lemma concat_map_if: "concat (map F (if b then [e] else [])) = (if b then F e else [])"
  by simp

lemma visit_pushed:
  "i < length ms \<Longrightarrow>
   concat (map (visit_entry ms) (pushed (ms ! i) (i + 1 = length ms) i (rev (child_nodes (p, Node tg at cs tx)))))
   = concat (map (\<lambda>(k, c). visit ms i (p @ [k]) c
                         @ (if matches (ms ! i) c \<and> i + 1 \<noteq> length ms
                            then visit ms (i + 1) (p @ [k]) c else []))
                    (rev (enumerate 0 cs)))"
  unfolding pushed_def child_nodes_def
  by (simp add: rev_map concat_map_concat comp_def case_prod_unfold concat_map_if visit_entry_def cong: if_cong)
  

lemma query_loop_eq:
  "caches_ok c \<Longrightarrow>
   fst (query_loop ms stack results c) = results @ concat (map (visit_entry ms) stack) \<and>
   caches_ok (snd (query_loop ms stack results c))"
proof (induction ms stack results c rule: query_loop.induct)
  case (1 matchers results c)
  then show ?case by (simp add: query_loop.simps)
next
  case (2 matchers node index stack results c)
  show ?case
  proof (cases "index < length matchers")
    case False
    have "visit_entry matchers (node, index) = []"
      using False by (cases "snd node") (simp add: visit_entry_def visit.simps)
    moreover have "query_loop matchers ((node, index) # stack) results c = query_loop matchers stack results c"
      using False by (simp add: query_loop.simps)
    ultimately show ?thesis
      using "2.IH"(2) [OF False "2.prems"] by simp
  next
    case True
    obtain p n where node: "node = (p, n)" by (cases node)
    obtain tg at cs tx where n: "n = Node tg at cs tx" by (cases n)
    define m where "m = matchers ! index"
    define l where "l = (index + 1 = length matchers)"
    define found where "found = (if l then filter (\<lambda>ln. matches m (snd ln)) (child_nodes node) else [])"
    define new where "new = pushed m l index (rev (child_nodes node))"
    from scan_children_eq [OF "2.prems", of m l index "child_nodes node" results stack]
    obtain c' where sc: "scan_children m l index (child_nodes node) (results, stack, c) =
            (results @ found, new @ stack, c')" and ok: "caches_ok c'"
      unfolding found_def new_def by blast
    have sc': "(results @ found, new @ stack, c') =
       scan_children (matchers ! index) (index + 1 = length matchers) index (child_nodes node) (results, stack, c)"
      using sc by (simp add: m_def l_def)
    from "2.IH"(1) [OF True sc' refl ok]
    have ih: "fst (query_loop matchers (new @ stack) (results @ found) c')
          = (results @ found) @ concat (map (visit_entry matchers) (new @ stack))"
      and ok': "caches_ok (snd (query_loop matchers (new @ stack) (results @ found) c'))"
      by blast+
    have step: "query_loop matchers ((node, index) # stack) results c =
       query_loop matchers (new @ stack) (results @ found) c'"
      using True sc' [symmetric] by (simp add: query_loop.simps)
    have ve: "visit_entry matchers (node, index) = found @ concat (map (visit_entry matchers) new)"
      unfolding found_def new_def m_def l_def node n
      using True visit_pushed [OF True, of p tg at cs tx]
      by (simp add: visit_entry_def visit.simps)
    show ?thesis
      unfolding step using ih ok' ve by simp
  qed
qed

lemma descendants_prefix:
  "(q, d) \<in> set (descendants p n) \<Longrightarrow> strict_prefix p q"
proof (induction p n arbitrary: q d rule: descendants.induct)
  case (1 p tg at cs tx)
  from "1.prems" obtain k c where kc: "(k, c) \<in> set (enumerate 0 cs)"
    and qd: "(q, d) = (p @ [k], c) \<or> (q, d) \<in> set (descendants (p @ [k]) c)"
    by auto
  from qd show ?case
  proof
    assume "(q, d) = (p @ [k], c)"
    then show ?thesis by (simp add: strict_prefix_def)
  next
    assume "(q, d) \<in> set (descendants (p @ [k]) c)"
    from "1.IH" [OF kc refl this] have "strict_prefix (p @ [k]) q" .
    then show ?thesis
      by (auto simp: strict_prefix_def prefix_def)
  qed
qed

lemma root_not_descendant: "(p, n) \<notin> set (descendants p m)"
  using descendants_prefix [of p n p m] by auto

lemma descendants_children:
  assumes "(k, c) \<in> set (enumerate 0 cs)"
  shows "(p @ [k], c) \<in> set (descendants p (Node tg at cs tx))"
    and "set (descendants (p @ [k]) c) \<subseteq> set (descendants p (Node tg at cs tx))"
  using assms by auto

lemma child_nodes_descendants:
  "set (child_nodes (p, n)) \<subseteq> set (descendants p n)"
  by (cases n) (auto simp: child_nodes_def)

lemma visit_subset: "set (visit ms i p n) \<subseteq> set (descendants p n)"
proof (induction ms i p n rule: visit.induct)
  case (1 ms i p tg at cs tx)
  show ?case
  proof (cases "i < length ms")
    case False
    then show ?thesis by (simp add: visit.simps)
  next
    case True
    have a: "set (filter (\<lambda>ln. matches (ms ! i) (snd ln)) (child_nodes (p, Node tg at cs tx)))
          \<subseteq> set (descendants p (Node tg at cs tx))"
      using child_nodes_descendants [of p "Node tg at cs tx"] by auto
    have b: "set (visit ms i (p @ [k]) c) \<subseteq> set (descendants p (Node tg at cs tx))"
      if "(k, c) \<in> set (enumerate 0 cs)" for k c
    proof -
      from that have "(k, c) \<in> set (rev (enumerate 0 cs))" by simp
      from "1.IH"(1) [OF True this refl] descendants_children(2) [OF that, of p tg at tx]
      show ?thesis by blast
    qed
    have c: "set (visit ms (i + 1) (p @ [k]) c) \<subseteq> set (descendants p (Node tg at cs tx))"
      if "(k, c) \<in> set (enumerate 0 cs)" "matches (ms ! i) c \<and> i + 1 \<noteq> length ms" for k c
    proof -
      from that have "(k, c) \<in> set (rev (enumerate 0 cs))" by simp
      from "1.IH"(2) [OF True this refl that(2)] descendants_children(2) [OF that(1), of p tg at tx]
      show ?thesis by blast
    qed
    show ?thesis
    proof
      fix x assume "x \<in> set (visit ms i p (Node tg at cs tx))"
      then consider "x \<in> set (filter (\<lambda>ln. matches (ms ! i) (snd ln)) (child_nodes (p, Node tg at cs tx)))"
        | k c where "(k, c) \<in> set (enumerate 0 cs)" "x \<in> set (visit ms i (p @ [k]) c)"
        | k c where "(k, c) \<in> set (enumerate 0 cs)" "matches (ms ! i) c \<and> i + 1 \<noteq> length ms"
            "x \<in> set (visit ms (i + 1) (p @ [k]) c)"
        using True by (auto simp: visit.simps split: if_splits)
      then show "x \<in> set (descendants p (Node tg at cs tx))"
        using a b c by cases blast+
    qed
  qed
qed

lemma mset_last_level:
  "(\<And>x. x \<in> set xs \<Longrightarrow> mset (V x) = mset (filter P (D x))) \<Longrightarrow>
   mset (filter P (map C xs) @ concat (map V (rev xs)))
     = mset (filter P (concat (map (\<lambda>x. C x # D x) xs)))"
  by (induction xs) auto

lemma visit_last_mset:
  "i + 1 = length ms \<Longrightarrow>
   mset (visit ms i p n) = mset (filter (\<lambda>ln. matches (ms ! i) (snd ln)) (descendants p n))"
proof (induction ms i p n rule: visit.induct)
  case (1 ms i p tg at cs tx)
  from "1.prems" have lt: "i < length ms" by simp
  let ?P = "\<lambda>ln. matches (ms ! i) (snd ln)"
  have ih: "mset (visit ms i (p @ [fst x]) (snd x)) = mset (filter ?P (descendants (p @ [fst x]) (snd x)))"
    if "x \<in> set (enumerate 0 cs)" for x
  proof -
    from that have "x \<in> set (rev (enumerate 0 cs))" by simp
    from "1.IH"(1) [OF lt this prod.collapse "1.prems"] show ?thesis .
  qed
  have v: "visit ms i p (Node tg at cs tx) =
     filter ?P (map (\<lambda>x. (p @ [fst x], snd x)) (enumerate 0 cs))
     @ concat (map (\<lambda>x. visit ms i (p @ [fst x]) (snd x)) (rev (enumerate 0 cs)))"
    using lt "1.prems" by (simp add: visit.simps child_nodes_def case_prod_unfold)
  have d: "descendants p (Node tg at cs tx) =
      concat (map (\<lambda>x. (p @ [fst x], snd x) # descendants (p @ [fst x]) (snd x)) (enumerate 0 cs))"
    by (simp add: case_prod_unfold)
  show ?case
    unfolding v d
    by (rule mset_last_level) (rule ih)
qed

lemma visit_no_match:
  "i \<le> k \<Longrightarrow> k < length ms \<Longrightarrow> \<forall>d \<in> set (descendants p n). \<not> matches (ms ! k) (snd d) \<Longrightarrow>
   visit ms i p n = []"
proof (induction ms i p n rule: visit.induct)
  case (1 ms i p tg at cs tx)
  from "1.prems" have lt: "i < length ms" by simp
  let ?n = "Node tg at cs tx"
  have nochild: "\<not> matches (ms ! k) c" if "(j, c) \<in> set (enumerate 0 cs)" for j c
    using "1.prems"(3) descendants_children(1) [OF that, of p tg at tx] by force
  have sub: "\<forall>d \<in> set (descendants (p @ [j]) c). \<not> matches (ms ! k) (snd d)"
    if "(j, c) \<in> set (enumerate 0 cs)" for j c
    using "1.prems"(3) descendants_children(2) [OF that, of p tg at tx] by blast
  have a: "visit ms i (p @ [j]) c = []" if "(j, c) \<in> set (enumerate 0 cs)" for j c
  proof -
    from that have "(j, c) \<in> set (rev (enumerate 0 cs))" by simp
    from "1.IH"(1) [OF lt this refl "1.prems"(1,2) sub [OF that]] show ?thesis .
  qed
  have b: "visit ms (i + 1) (p @ [j]) c = []"
    if "(j, c) \<in> set (enumerate 0 cs)" "matches (ms ! i) c \<and> i + 1 \<noteq> length ms" for j c
  proof -
    from that nochild [OF that(1)] have "i \<noteq> k" by auto
    with "1.prems"(1) have "i + 1 \<le> k" by simp
    then have le: "i + 1 \<le> k" .
    from that have "(j, c) \<in> set (rev (enumerate 0 cs))" by simp
    from "1.IH"(2) [OF lt this refl that(2) le "1.prems"(2) sub [OF that(1)]]
    show ?thesis .
  qed
  have c: "filter (\<lambda>ln. matches (ms ! i) (snd ln)) (child_nodes (p, ?n)) = []" if "i + 1 = length ms"
  proof -
    from that "1.prems" have "i = k" by simp
    with nochild show ?thesis
      by (auto simp: filter_empty_conv child_nodes_def)
  qed
  show ?case
    using lt a b c by (auto simp: visit.simps)
qed

lemma querySelectorAll_visit:
  assumes "caches_ok c"
  shows "fst (querySelectorAll R S c) = visit (map compileMatcher (split_ws (trim S))) 0 (fst R) (snd R)"
    and "caches_ok (snd (querySelectorAll R S c))"
  using query_loop_eq [OF assms, of "map compileMatcher (split_ws (trim S))" "[(R, 0)]" "[]"]
  by (simp_all add: querySelectorAll_def visit_entry_def)

lemma count_list_filter_le: "count_list (filter P xs) x \<le> count_list xs x"
  by (induction xs) auto

lemma trim_spaces: "\<forall>ch \<in> set S. is_space ch \<Longrightarrow> trim S = []"
proof -
  assume "\<forall>ch \<in> set S. is_space ch"
  then have "dropWhile is_space S = []"
    by (induction S) simp_all
  then show ?thesis
    by (simp only: trim_def rev.simps dropWhile.simps)
qed

lemma split_ws_Nil: "split_ws [] = [[]]"
  by (simp add: split_ws.simps)

lemma compileMatcher_Nil: "compileMatcher [] = TagIs []"
  by (simp add: compileMatcher_def attr_selector_match_def toLowerCase_def)

section \<open>Claims about querySelectorAll\<close>

text \<open>
  Claim C1, as amended. For every selector \<open>S\<close>, every located tree \<open>D\<close> and every state
  \<open>c\<close> of the caches that holds only values the matchers compute: every node
  \<^verbatim>\<open>querySelectorAll\<close> returns is a descendant of \<open>D\<close>; when the selector has a single
  fragment no node is returned more often than it occurs among the descendants; the caches
  afterwards again hold only computed values; and running the query again on the caches
  the first run left returns the identical sequence. (A selector of several fragments may
  return the same node more than once, see the counterexample.)
\<close>

theorem querySelectorAll_descendants_repeatable:
  assumes "caches_ok c"
  shows "set (fst (querySelectorAll D S c)) \<subseteq> set (descendants (fst D) (snd D))
    \<and> (length (split_ws (trim S)) = 1 \<longrightarrow>
          (\<forall>x. count_list (fst (querySelectorAll D S c)) x \<le> count_list (descendants (fst D) (snd D)) x))
    \<and> caches_ok (snd (querySelectorAll D S c))
    \<and> fst (querySelectorAll D S (snd (querySelectorAll D S c))) = fst (querySelectorAll D S c)"
proof -
  let ?ms = "map compileMatcher (split_ws (trim S))"
  note v = querySelectorAll_visit [OF assms, of D S]
  have a: "set (fst (querySelectorAll D S c)) \<subseteq> set (descendants (fst D) (snd D))"
    unfolding v(1) by (rule visit_subset)
  have b: "count_list (fst (querySelectorAll D S c)) x \<le> count_list (descendants (fst D) (snd D)) x"
    if "length (split_ws (trim S)) = 1" for x
  proof -
    from that have "0 + 1 = length ?ms" by simp
    from visit_last_mset [OF this, of "fst D" "snd D"]
    have "count_list (visit ?ms 0 (fst D) (snd D)) x
        = count_list (filter (\<lambda>ln. matches (?ms ! 0) (snd ln)) (descendants (fst D) (snd D))) x"
      by (metis count_mset)
    then show ?thesis
      unfolding v(1) by (simp add: count_list_filter_le)
  qed
  have d: "fst (querySelectorAll D S (snd (querySelectorAll D S c))) = fst (querySelectorAll D S c)"
    using querySelectorAll_visit(1) [OF v(2), of D S] v(1) by simp
  from a b v(2) d show ?thesis by blast
qed

theorem querySelectorAll_descendants_repeatable_witness:
  "caches_ok no_caches \<and> length (split_ws (trim ''span'')) = 1
   \<and> fst (querySelectorAll ([], nested_divs) ''span'' no_caches) = [([0, 0, 0], Node ''span'' [] [] [])]
   \<and> set (fst (querySelectorAll ([], nested_divs) ''span'' no_caches)) \<subseteq> set (descendants [] nested_divs)
   \<and> count_list (fst (querySelectorAll ([], nested_divs) ''span'' no_caches)) ([0, 0, 0], Node ''span'' [] [] [])
        \<le> count_list (descendants [] nested_divs) ([0, 0, 0], Node ''span'' [] [] [])
   \<and> fst (querySelectorAll ([], nested_divs) ''span''
             (snd (querySelectorAll ([], nested_divs) ''span'' no_caches)))
        = fst (querySelectorAll ([], nested_divs) ''span'' no_caches)"
proof -
  have len: "length (split_ws (trim ''span'')) = 1" by code_simp
  have res: "fst (querySelectorAll ([], nested_divs) ''span'' no_caches) = [([0, 0, 0], Node ''span'' [] [] [])]"
    by code_simp
  note t = querySelectorAll_descendants_repeatable [OF caches_ok_empty, of "([], nested_divs)" "''span''"]
  from t have a: "set (fst (querySelectorAll ([], nested_divs) ''span'' no_caches)) \<subseteq> set (descendants [] nested_divs)"
    by simp
  from t len have "\<forall>x. count_list (fst (querySelectorAll ([], nested_divs) ''span'' no_caches)) x
        \<le> count_list (descendants [] nested_divs) x"
    by simp
  then have b: "count_list (fst (querySelectorAll ([], nested_divs) ''span'' no_caches)) ([0, 0, 0], Node ''span'' [] [] [])
        \<le> count_list (descendants [] nested_divs) ([0, 0, 0], Node ''span'' [] [] [])"
    by blast
  from t have d: "fst (querySelectorAll ([], nested_divs) ''span''
             (snd (querySelectorAll ([], nested_divs) ''span'' no_caches)))
        = fst (querySelectorAll ([], nested_divs) ''span'' no_caches)"
    by simp
  from caches_ok_empty len res a b d show ?thesis
    by blast
qed

theorem querySelectorAll_repeats_node_counterexample:
  "\<not> count_list (fst (querySelectorAll ([], nested_divs) ''div span'' no_caches)) ([0, 0, 0], Node ''span'' [] [] [])
      \<le> count_list (descendants [] nested_divs) ([0, 0, 0], Node ''span'' [] [] [])"
  by code_simp

text \<open>
  Claim C2, as amended. For every located node \<open>R\<close> and selector \<open>S\<close>, the sequence returned
  by \<^verbatim>\<open>querySelectorAll\<close> is in the loop's own visit order (\<open>visit\<close>: the matching children
  of a node in sibling order, then the subtrees of its children from the last child to the
  first), contains only proper descendants of \<open>R\<close> (their positions strictly extend that of
  \<open>R\<close>) and never \<open>R\<close> itself. The visit order is not document order.
\<close>

theorem querySelectorAll_proper_descendants_visit_order:
  assumes "caches_ok c"
  shows "fst (querySelectorAll R S c) = visit (map compileMatcher (split_ws (trim S))) 0 (fst R) (snd R)
    \<and> set (fst (querySelectorAll R S c)) \<subseteq> set (descendants (fst R) (snd R))
    \<and> (\<forall>x \<in> set (fst (querySelectorAll R S c)). strict_prefix (fst R) (fst x))
    \<and> R \<notin> set (fst (querySelectorAll R S c))"
proof -
  note v = querySelectorAll_visit [OF assms, of R S]
  have sub: "set (fst (querySelectorAll R S c)) \<subseteq> set (descendants (fst R) (snd R))"
    unfolding v(1) by (rule visit_subset)
  have pre: "strict_prefix (fst R) (fst x)" if "x \<in> set (fst (querySelectorAll R S c))" for x
    using that sub descendants_prefix [of "fst x" "snd x" "fst R" "snd R"] by auto
  have "R \<notin> set (fst (querySelectorAll R S c))"
    using pre [of R] by auto
  with v(1) sub pre show ?thesis by blast
qed

theorem querySelectorAll_proper_descendants_visit_order_witness:
  "caches_ok no_caches
   \<and> fst (querySelectorAll ([], nested_ps) ''p'' no_caches)
       = [([0], Node ''p'' [] [Node ''p'' [] [] []] []), ([1], Node ''p'' [] [] []), ([0, 0], Node ''p'' [] [] [])]
   \<and> visit (map compileMatcher (split_ws (trim ''p''))) 0 [] nested_ps
       = [([0], Node ''p'' [] [Node ''p'' [] [] []] []), ([1], Node ''p'' [] [] []), ([0, 0], Node ''p'' [] [] [])]
   \<and> ([], nested_ps) \<notin> set (fst (querySelectorAll ([], nested_ps) ''p'' no_caches))"
proof -
  have res: "fst (querySelectorAll ([], nested_ps) ''p'' no_caches)
       = [([0], Node ''p'' [] [Node ''p'' [] [] []] []), ([1], Node ''p'' [] [] []), ([0, 0], Node ''p'' [] [] [])]"
    by code_simp
  note t = querySelectorAll_proper_descendants_visit_order [OF caches_ok_empty, of "([], nested_ps)" "''p''"]
  from t have v: "fst (querySelectorAll ([], nested_ps) ''p'' no_caches)
      = visit (map compileMatcher (split_ws (trim ''p''))) 0 [] nested_ps"
    by simp
  from t have r: "([], nested_ps) \<notin> set (fst (querySelectorAll ([], nested_ps) ''p'' no_caches))"
    by blast
  from caches_ok_empty res v [unfolded res, symmetric] r show ?thesis
    by blast
qed

theorem querySelectorAll_document_order_counterexample:
  "\<not> subseq (fst (querySelectorAll ([], nested_ps) ''p'' no_caches)) (descendants [] nested_ps)"
  by code_simp

text \<open>
  A blank selector (empty, or whitespace only) is trimmed to the empty string, which
  \<^verbatim>\<open>split(/\s+/)\<close> turns into the one-element list of the empty string and not into the
  empty list. Its only fragment compiles to the tag matcher for the empty tag, and the
  nodes with an empty tag are the text leaves: the query returns them, each once.
\<close>

lemma blank_selector_matchers:
  "\<forall>ch \<in> set S. is_space ch \<Longrightarrow> map compileMatcher (split_ws (trim S)) = [TagIs []]"
  by (simp add: trim_spaces split_ws_Nil compileMatcher_Nil)

lemma blank_selector_returns_text_leaves:
  assumes "caches_ok c" and "\<forall>ch \<in> set S. is_space ch"
  shows "mset (fst (querySelectorAll D S c))
           = mset (filter (\<lambda>d. tag (snd d) = []) (descendants (fst D) (snd D)))"
proof -
  note v = querySelectorAll_visit [OF assms(1), of D S]
  have "0 + 1 = length [TagIs []]" by simp
  from visit_last_mset [OF this, of "fst D" "snd D"] show ?thesis
    unfolding v(1) blank_selector_matchers [OF assms(2)] by (simp add: toLowerCase_def)
qed

text \<open>A selector one of whose fragments matches no descendant yields the empty sequence;
  the query has no case that raises.\<close>

lemma unmatched_fragment_gives_no_results:
  assumes "caches_ok c" and "k < length (split_ws (trim S))"
    and "\<forall>d \<in> set (descendants (fst D) (snd D)). \<not> matches (compileMatcher (split_ws (trim S) ! k)) (snd d)"
  shows "fst (querySelectorAll D S c) = []"
proof -
  let ?ms = "map compileMatcher (split_ws (trim S))"
  note v = querySelectorAll_visit [OF assms(1), of D S]
  from assms(2) have k: "k < length ?ms" by simp
  from assms(2,3) have no: "\<forall>d \<in> set (descendants (fst D) (snd D)). \<not> matches (?ms ! k) (snd d)"
    by simp
  from visit_no_match [OF _ k no] show ?thesis
    unfolding v(1) by simp
qed

text \<open>
  Claim C3 says that an empty or all-whitespace selector yields an empty result sequence.
  The code does not do that: on the document parsed from \<^verbatim>\<open><p>hi</p>\<close> the empty
  selector, the selector of two blanks and the selector that is one no-break space each
  return the text leaf \<^verbatim>\<open>hi\<close>. The matcher list is never empty, so the loop's
  \<^verbatim>\<open>if (!matcher) continue\<close> does not come into play. The other half of the claim holds: a
  selector with a fragment that matches nothing (here \<^verbatim>\<open>p em\<close>) returns the empty sequence.
\<close>

theorem querySelectorAll_blank_selector_returns_text_leaf:
  "parseHTML ''<p>hi</p>'' = Some ([], one_text)
   \<and> fst (querySelectorAll ([], one_text) [] no_caches) = [([0, 0], Node [] [] [] ''hi'')]
   \<and> fst (querySelectorAll ([], one_text) ''  '' no_caches) = [([0, 0], Node [] [] [] ''hi'')]
   \<and> fst (querySelectorAll ([], one_text) [CHR 0xA0] no_caches) = [([0, 0], Node [] [] [] ''hi'')]
   \<and> fst (querySelectorAll ([], one_text) ''p em'' no_caches) = []"
  by code_simp


section \<open>The tree builder\<close>

lemma node_at_push_valid:
  "node_at root q \<noteq> None \<Longrightarrow> node_at (update_at p (push_child c) root) q \<noteq> None"
proof (induction p "push_child c" root arbitrary: q rule: update_at.induct)
  case (1 n)
  then show ?case
    by (cases n; cases q) (auto simp: push_child_def nth_append)
next
  case (2 k p tg at cs tx)
  show ?case
  proof (cases q)
    case Nil
    then show ?thesis by simp
  next
    case (Cons j q')
    with "2.prems" have j: "j < length cs" and v: "node_at (cs ! j) q' \<noteq> None"
      by (auto split: if_splits)
    show ?thesis
    proof (cases "k < length cs")
      case False
      with Cons j v show ?thesis by simp
    next
      case True
      show ?thesis
      proof (cases "j = k")
        case True
        with "2.hyps" [OF \<open>k < length cs\<close>, of q'] v Cons j show ?thesis by simp
      next
        case False
        with Cons j v \<open>k < length cs\<close> show ?thesis by simp
      qed
    qed
  qed
qed

lemma node_at_push_new:
  "node_at root p = Some n \<Longrightarrow>
   node_at (update_at p (push_child c) root) (p @ [length (children n)]) = Some c"
proof (induction p "push_child c" root rule: update_at.induct)
  case (1 r)
  then show ?case
    by (cases r) (simp add: push_child_def)
next
  case (2 k p tg at cs tx)
  then show ?case
    by (auto split: if_splits)
qed

lemma build_inv_init: "build_inv build_init"
  by (simp add: build_inv_def build_init_def)

lemma build_inv_step: "build_inv st \<Longrightarrow> build_inv (build_step st t)"
proof -
  assume inv: "build_inv st"
  obtain root stack where st: "st = (root, stack)" by (cases st)
  from inv st obtain cur below where stack: "stack = cur # below"
    by (cases stack) (auto simp: build_inv_def)
  from inv st stack obtain current where cur: "node_at root cur = Some current"
    by (auto simp: build_inv_def)
  from inv st stack have all: "list_all (\<lambda>p. node_at root p \<noteq> None) (cur # below)"
    and bot: "last (cur # below) = []"
    by (auto simp: build_inv_def)
  have keep: "list_all (\<lambda>p. node_at (update_at cur (push_child c) root) p \<noteq> None) (cur # below)" for c
    using all node_at_push_valid [of root _ cur c] by (auto simp: list_all_iff)
  show ?thesis
  proof (cases "tok_type t")
    case TOpen
    with st stack cur keep [of "new_element t"] bot node_at_push_new [OF cur, of "new_element t"]
    show ?thesis
      by (simp add: build_step_def build_inv_def)
  next
    case TClose
    with st stack cur all bot show ?thesis
      by (cases below) (auto simp: build_step_def build_inv_def)
  next
    case TText
    with st stack cur keep [of "Node [] [] [] (the (tok_content t))"] all bot show ?thesis
      by (cases "tok_content t") (auto simp: build_step_def build_inv_def)
  next
    case TSelfClosing
    with st stack cur keep [of "new_element t"] bot show ?thesis
      by (simp add: build_step_def build_inv_def)
  qed
qed

lemma build_inv_run: "build_inv (build_run ts)"
proof (induction ts rule: rev_induct)
  case Nil
  then show ?case by (simp add: build_run_def build_inv_init)
next
  case (snoc t ts)
  then show ?case by (simp add: build_run_def build_inv_step)
qed

lemma build_run_snoc: "build_run (ts @ [t]) = build_step (build_run ts) t"
  by (simp add: build_run_def)


text \<open>
  Claim C7. After any token sequence \<open>ts\<close> the builder's stack is non-empty with the
  synthetic root at the bottom. A \<^verbatim>\<open>close\<close> token \<open>t\<close> that follows pops the stack if
  and only if the stack holds more than the root and the tag of the node on top equals the
  token's tag; otherwise the stack is unchanged. In both cases the tree is unchanged. Every
  entry of the stack, so every element still open when the input ends, is a node of the
  tree that \<^verbatim>\<open>buildTree\<close> returns.
\<close>

theorem buildTree_close_token:
  assumes "build_run ts = (root, stack)" and "tok_type t = TClose"
  shows "\<exists>cur below current.
           stack = cur # below \<and> last stack = [] \<and> node_at root cur = Some current \<and>
           build_run (ts @ [t]) =
             (root, if 1 < length stack \<and> tok_tag t = Some (tag current) then below else stack) \<and>
           buildTree (ts @ [t]) = buildTree ts \<and>
           list_all (\<lambda>p. node_at (buildTree ts) p \<noteq> None) stack"
proof -
  from build_inv_run [of ts] assms(1) obtain cur below where stack: "stack = cur # below"
    and bot: "last stack = []" and all: "list_all (\<lambda>p. node_at root p \<noteq> None) stack"
    by (cases stack) (auto simp: build_inv_def)
  from all stack obtain current where cur: "node_at root cur = Some current"
    by auto
  have step: "build_run (ts @ [t]) =
             (root, if 1 < length stack \<and> tok_tag t = Some (tag current) then below else stack)"
    using assms stack cur by (auto simp: build_run_snoc build_step_def)
  have "buildTree (ts @ [t]) = buildTree ts"
    using step assms(1) by (simp add: buildTree_def)
  moreover have "list_all (\<lambda>p. node_at (buildTree ts) p \<noteq> None) stack"
    using all assms(1) by (simp add: buildTree_def)
  ultimately show ?thesis
    using stack bot cur step by blast
qed

theorem buildTree_close_token_witness:
  "build_run [open_token ''div'', open_token ''p'']
     = (Node ''document'' [] [Node ''div'' [] [Node ''p'' [] [] []] []] [], [[0, 0], [0], []])
   \<and> tok_type (close_token ''div'') = TClose
   \<and> build_run ([open_token ''div'', open_token ''p''] @ [close_token ''div''])
     = (Node ''document'' [] [Node ''div'' [] [Node ''p'' [] [] []] []] [], [[0, 0], [0], []])
   \<and> build_run ([open_token ''div'', open_token ''p''] @ [close_token ''p''])
     = (Node ''document'' [] [Node ''div'' [] [Node ''p'' [] [] []] []] [], [[0], []])"
proof -
  let ?root = "Node ''document'' [] [Node ''div'' [] [Node ''p'' [] [] []] []] []"
  have run: "build_run [open_token ''div'', open_token ''p''] = (?root, [[0, 0], [0], []])"
    by code_simp
  have ty: "tok_type (close_token tg) = TClose" for tg
    by (simp add: close_token_def)
  from buildTree_close_token [OF run ty, of "''div''"]
  have a: "build_run ([open_token ''div'', open_token ''p''] @ [close_token ''div''])
     = (?root, [[0, 0], [0], []])"
    by (auto simp: close_token_def)
  from buildTree_close_token [OF run ty, of "''p''"]
  have b: "build_run ([open_token ''div'', open_token ''p''] @ [close_token ''p''])
     = (?root, [[0], []])"
    by (auto simp: close_token_def)
  from run ty [of "''div''"] a b show ?thesis by blast
qed

section \<open>The extraction engine\<close>

lemma limited_nonneg:
  "nonneg_limit lim \<Longrightarrow>
   limited lim els = (case lim of None \<Rightarrow> els | Some k \<Rightarrow> if k = 0 then els else take (nat k) els)"
  by (cases lim) (auto simp: limited_def slice0_def nonneg_limit_def)

text \<open>
  Claim C4, as amended. For every non-nested multiple field whose limit is absent or not
  negative, extraction selects all matches, truncates them to the first \<open>limit\<close> matches
  when the limit is not 0, and, if no match is left, takes the field's configured default
  sequence (or the empty sequence); otherwise it reads each match's value per \<open>attr\<close> and
  drops the nulls, and the result may then be empty. That sequence is the field's value, or
  what its transform is applied to.
\<close>

theorem extractMultipleSimple_values:
  assumes "nonneg_limit lim"
  shows "extractMultipleSimple selector attr dflt None lim ctx
           = Inr (JArray (amended_multiple_values selector attr dflt lim ctx))
    \<and> extractMultipleSimple selector attr dflt (Some fn) lim ctx
           = safeTransform fn (JArray (amended_multiple_values selector attr dflt lim ctx))"
  by (simp add: extractMultipleSimple_def multiple_raw_def amended_multiple_values_def Let_def
      limited_nonneg [OF assms])

theorem extractMultipleSimple_values_witness:
  "nonneg_limit (Some 2)
   \<and> extractMultipleSimple ''a'' (Some ''href'') (Some [JString ''none'']) None (Some 2) ([], links_doc)
       = Inr (JArray (amended_multiple_values ''a'' (Some ''href'') (Some [JString ''none'']) (Some 2) ([], links_doc)))
   \<and> amended_multiple_values ''a'' (Some ''href'') (Some [JString ''none'']) (Some 2) ([], links_doc)
       = [JString ''/x'']"
proof -
  have n: "nonneg_limit (Some 2)" by (simp add: nonneg_limit_def)
  have v: "amended_multiple_values ''a'' (Some ''href'') (Some [JString ''none'']) (Some 2) ([], links_doc)
       = [JString ''/x'']"
    by code_simp
  from n v extractMultipleSimple_values [OF n, of "''a''" "Some ''href''" "Some [JString ''none'']" "([], links_doc)"]
  show ?thesis by blast
qed

theorem extractMultipleSimple_default_counterexample:
  "extractMultipleSimple ''a'' (Some ''href'') (Some [JString ''none'']) None None ([], no_href_doc)
     \<noteq> Inr (JArray (claimed_multiple_values ''a'' (Some ''href'') (Some [JString ''none'']) None ([], no_href_doc)))"
  by code_simp

lemma map_throwing_Inr:
  "(\<And>x. x \<in> set xs \<Longrightarrow> \<exists>r. f x = Inr r) \<Longrightarrow> \<exists>rs. map_throwing f xs = Inr rs \<and> length rs = length xs"
proof (induction xs)
  case Nil
  then show ?case by simp
next
  case (Cons x xs)
  from Cons.prems [of x] obtain r where "f x = Inr r" by auto
  moreover from Cons.IH Cons.prems obtain rs where "map_throwing f xs = Inr rs" "length rs = length xs"
    by auto
  ultimately show ?case by simp
qed

lemma map_throwing_length:
  "map_throwing f xs = Inr rs \<Longrightarrow> length rs = length xs"
  by (induction xs arbitrary: rs) (auto split: sum.splits)

lemma map_throwing_all_Inr:
  "\<forall>x \<in> set xs. f x = Inr (g x) \<Longrightarrow> map_throwing f xs = Inr (map g xs)"
  by (induction xs) simp_all

lemma map_throwing_some_Inl:
  "x \<in> set xs \<Longrightarrow> f x = Inl e \<Longrightarrow> \<exists>e'. map_throwing f xs = Inl e'"
  by (induction xs) (auto split: sum.splits)

lemma nested_entries_Inr:
  "(\<And>f. f \<in> snd ` set flds \<Longrightarrow> \<exists>r. extractField f el = Inr r) \<Longrightarrow> \<exists>obj. nested_entries flds el = Inr obj"
proof (induction flds)
  case Nil
  then show ?case by simp
next
  case (Cons kf flds)
  obtain key sub where kf: "kf = (key, sub)" by (cases kf)
  from Cons.prems [of sub] kf obtain r where "extractField sub el = Inr r" by auto
  moreover from Cons.IH Cons.prems obtain obj where "nested_entries flds el = Inr obj"
    by auto
  ultimately show ?case using kf by simp
qed

lemma quiet_field_Inr: "quiet_field f \<Longrightarrow> \<exists>r. extractField f ctx = Inr r"
proof (induction f arbitrary: ctx)
  case (SingleField selector attr dflt transform)
  then show ?case
  proof (cases transform)
    case None
    then show ?thesis by (simp add: extractSingleSimple_def)
  next
    case (Some fn)
    with SingleField obtain r where "fn (single_raw selector attr dflt ctx) = Inr r"
      by auto
    with Some show ?thesis by (simp add: extractSingleSimple_def safeTransform_def)
  qed
next
  case (MultipleField selector attr dflt transform lim)
  then show ?case
  proof (cases transform)
    case None
    then show ?thesis by (simp add: extractMultipleSimple_def)
  next
    case (Some fn)
    with MultipleField obtain r where "fn (JArray (multiple_raw selector attr dflt lim ctx)) = Inr r"
      by auto
    with Some show ?thesis by (simp add: extractMultipleSimple_def safeTransform_def)
  qed
next
  case (NestedField selector flds multiple lim)
  have sub: "\<exists>r. extractField f el = Inr r" if "f \<in> snd ` set flds" for f el
  proof -
    from that obtain kf where "kf \<in> set flds" "f \<in> Basic_BNFs.snds kf"
      by (auto simp: snds.simps)
    moreover from that NestedField.prems have "quiet_field f" by auto
    ultimately show ?thesis using NestedField.IH by blast
  qed
  have obj: "\<exists>r. buildNestedObject flds el = Inr r" for el
    using nested_entries_Inr [of flds el] sub by (auto simp: buildNestedObject.simps)
  show ?case
  proof (cases "case multiple of None \<Rightarrow> False | Some b \<Rightarrow> b")
    case True
    from map_throwing_Inr [of "limited lim (select ctx selector)" "\<lambda>el. buildNestedObject flds el"] obj
    obtain rs where "map_throwing (\<lambda>el. buildNestedObject flds el) (limited lim (select ctx selector)) = Inr rs"
      by blast
    with True show ?thesis by simp
  next
    case False
    then show ?thesis
      using obj by (cases "selectOne ctx selector") auto
  qed
qed

lemma extract_entries_Inr:
  "(\<And>f. f \<in> snd ` set schema \<Longrightarrow> quiet_field f) \<Longrightarrow> \<exists>result. extract_entries schema doc = Inr result"
proof (induction schema)
  case Nil
  then show ?case by simp
next
  case (Cons kf schema)
  obtain key field where kf: "kf = (key, field)" by (cases kf)
  from Cons.prems [of field] kf quiet_field_Inr [of field doc] obtain v where "extractField field doc = Inr v"
    by auto
  moreover from Cons.IH Cons.prems obtain result where "extract_entries schema doc = Inr result"
    by auto
  ultimately show ?case using kf by simp
qed

lemma extract_entries_tag:
  "extract_entries pre doc = Inr done \<Longrightarrow> extractField f doc = Inl msg \<Longrightarrow>
   extract_entries (pre @ (name, f) # post) doc = Inl (field_error name msg)"
proof (induction pre arbitrary: "done")
  case Nil
  then show ?case by (simp add: field_error_def)
next
  case (Cons kf pre)
  obtain key field where kf: "kf = (key, field)" by (cases kf)
  from Cons.prems(1) kf obtain v rest where "extractField field doc = Inr v" "extract_entries pre doc = Inr rest"
    by (auto split: sum.splits)
  with Cons.IH [OF this(2) Cons.prems(2)] kf show ?case by simp
qed


text \<open>
  Claim C5, as amended. Let the fields before the field \<open>name\<close> of a schema extract without
  raising. If that field is a single or multiple field whose transform throws with message
  \<open>C\<close> on the raw value, extraction raises the error
  \<^verbatim>\<open>Field "<name>": Transform failed: <C>\<close> and returns no result. Whatever error the
  extraction of a top-level field raises, also one from a transform of a sub-field of a
  nested field, reaches the caller tagged with the name of that top-level field only.
  A schema none of whose transforms throws never raises, whatever its selectors match.
\<close>

theorem transform_failure_tagged:
  assumes "extract_entries pre doc = Inr done"
  shows "(fn (single_raw selector attr dflt doc) = Inl C \<longrightarrow>
            extractData doc (pre @ (name, SingleField selector attr dflt (Some fn)) # post)
              = Inl (field_error name (''Transform failed: '' @ C)))
       \<and> (fn (JArray (multiple_raw selector attr dflts lim doc)) = Inl C \<longrightarrow>
            extractData doc (pre @ (name, MultipleField selector attr dflts (Some fn) lim) # post)
              = Inl (field_error name (''Transform failed: '' @ C)))
       \<and> (extractField f doc = Inl msg \<longrightarrow>
            extractData doc (pre @ (name, f) # post) = Inl (field_error name msg))
       \<and> ((\<forall>g \<in> snd ` set schema. quiet_field g) \<longrightarrow> (\<exists>result. extractData doc schema = Inr (JObject result)))"
proof -
  have tag: "extractData doc (pre @ (name, g) # post) = Inl (field_error name m)"
    if "extractField g doc = Inl m" for g m
    using extract_entries_tag [OF assms that] by (simp add: extractData_def)
  have a: "extractData doc (pre @ (name, SingleField selector attr dflt (Some fn)) # post)
              = Inl (field_error name (''Transform failed: '' @ C))"
    if "fn (single_raw selector attr dflt doc) = Inl C"
    by (rule tag) (simp add: extractSingleSimple_def safeTransform_def that)
  have b: "extractData doc (pre @ (name, MultipleField selector attr dflts (Some fn) lim) # post)
              = Inl (field_error name (''Transform failed: '' @ C))"
    if "fn (JArray (multiple_raw selector attr dflts lim doc)) = Inl C"
    by (rule tag) (simp add: extractMultipleSimple_def safeTransform_def that)
  have c: "\<exists>result. extractData doc schema = Inr (JObject result)"
    if "\<forall>g \<in> snd ` set schema. quiet_field g"
    using extract_entries_Inr [of schema doc] that by (auto simp: extractData_def)
  from a b c tag show ?thesis by blast
qed

theorem transform_failure_tagged_witness:
  "extract_entries [(''first'', SingleField ''a'' None None None)] ([], links_doc) = Inr [(''first'', JString ''one'')]
   \<and> boom (single_raw ''a'' None None ([], links_doc)) = Inl ''boom''
   \<and> extractData ([], links_doc)
        ([(''first'', SingleField ''a'' None None None)]
           @ (''bad'', SingleField ''a'' None None (Some boom)) # [(''last'', SingleField ''a'' None None None)])
       = Inl (field_error ''bad'' (''Transform failed: '' @ ''boom''))
   \<and> boom (JArray (multiple_raw ''a'' None None None ([], links_doc))) = Inl ''boom''
   \<and> extractData ([], links_doc)
        ([(''first'', SingleField ''a'' None None None)]
           @ (''bad'', MultipleField ''a'' None None (Some boom) None) # [])
       = Inl (field_error ''bad'' (''Transform failed: '' @ ''boom''))
   \<and> (\<exists>result. extractData ([], links_doc) [(''first'', SingleField ''zzz'' None None None)] = Inr (JObject result))"
proof -
  have pre: "extract_entries [(''first'', SingleField ''a'' None None None)] ([], links_doc)
      = Inr [(''first'', JString ''one'')]"
    by code_simp
  have b: "boom v = Inl ''boom''" for v
    by (simp add: boom_def)
  have q: "\<forall>g \<in> snd ` set [(''first'', SingleField ''zzz'' None None None)]. quiet_field g"
    by simp
  note t = transform_failure_tagged [OF pre, where fn = boom and C = "''boom''" and name = "''bad''"
      and selector = "''a''" and attr = None and dflt = None and dflts = None and lim = None
      and schema = "[(''first'', SingleField ''zzz'' None None None)]"]
  from t [where post = "[(''last'', SingleField ''a'' None None None)]"] b
  have s: "extractData ([], links_doc)
        ([(''first'', SingleField ''a'' None None None)]
           @ (''bad'', SingleField ''a'' None None (Some boom)) # [(''last'', SingleField ''a'' None None None)])
       = Inl (field_error ''bad'' (''Transform failed: '' @ ''boom''))"
    by blast
  from t [where post = "[]"] b
  have m: "extractData ([], links_doc)
        ([(''first'', SingleField ''a'' None None None)]
           @ (''bad'', MultipleField ''a'' None None (Some boom) None) # [])
       = Inl (field_error ''bad'' (''Transform failed: '' @ ''boom''))"
    by blast
  from t [where post = "[]"] q
  have n: "\<exists>result. extractData ([], links_doc) [(''first'', SingleField ''zzz'' None None None)] = Inr (JObject result)"
    by blast
  from pre b s m n show ?thesis by blast
qed

theorem nested_transform_failure_counterexample:
  "extractField (SingleField ''q'' None None (Some boom))
       ([0], Node ''a'' [(''href'', ''/x'')] [Node [] [] [] ''one''] [])
     = Inl ''Transform failed: boom''
   \<and> extractData ([], links_doc)
         [(''outer'', NestedField ''a'' [(''inner'', SingleField ''q'' None None (Some boom))] None None)]
     = Inl (field_error ''outer'' ''Transform failed: boom'')
   \<and> extractData ([], links_doc)
         [(''outer'', NestedField ''a'' [(''inner'', SingleField ''q'' None None (Some boom))] None None)]
     \<noteq> Inl (field_error ''inner'' ''Transform failed: boom'')"
  by code_simp

text \<open>
  Claim C9. A limit of 0 is falsy, so no slice is taken. A non-nested multiple field with
  limit 0 returns the values of all matches of the selector, in their order and without the
  nulls (the default when nothing matches), or what its transform makes of that array; this
  is also what it returns without a limit. A nested multiple field with limit 0 returns one
  object per match, in the order of the matches, unless building one of them raises; this
  too is what it returns without a limit.
\<close>

theorem limit_zero_keeps_all_matches:
  "extractMultipleSimple selector attr dflt None (Some 0) ctx
       = Inr (JArray (if select ctx selector = [] then (case dflt of None \<Rightarrow> [] | Some d \<Rightarrow> d)
                      else filter (\<lambda>v. v \<noteq> JNull)
                             (map (\<lambda>el. extractValue el (attr_or_text attr)) (select ctx selector))))
   \<and> extractMultipleSimple selector attr dflt (Some fn) (Some 0) ctx
       = safeTransform fn
           (JArray (if select ctx selector = [] then (case dflt of None \<Rightarrow> [] | Some d \<Rightarrow> d)
                    else filter (\<lambda>v. v \<noteq> JNull)
                           (map (\<lambda>el. extractValue el (attr_or_text attr)) (select ctx selector))))
   \<and> extractField (MultipleField selector attr dflt transform (Some 0)) ctx
       = extractField (MultipleField selector attr dflt transform None) ctx
   \<and> (\<forall>g. (\<forall>el \<in> set (select ctx selector). buildNestedObject flds el = Inr (g el))
         \<longrightarrow> extractField (NestedField selector flds (Some True) (Some 0)) ctx
               = Inr (JArray (map g (select ctx selector))))
   \<and> (\<forall>el \<in> set (select ctx selector). \<forall>e. buildNestedObject flds el = Inl e
         \<longrightarrow> (\<exists>e'. extractField (NestedField selector flds (Some True) (Some 0)) ctx = Inl e'))
   \<and> limited (Some 0) els = els
   \<and> extractMultipleSimple selector attr dflt transform (Some 0) ctx
       = extractMultipleSimple selector attr dflt transform None ctx
   \<and> multiple_raw selector attr dflt (Some 0) ctx
       = (if select ctx selector = [] then (case dflt of None \<Rightarrow> [] | Some d \<Rightarrow> d)
          else filter (\<lambda>v. v \<noteq> JNull) (map (\<lambda>el. extractValue el (attr_or_text attr)) (select ctx selector)))
   \<and> extractMultipleNested selector flds (Some 0) ctx = extractMultipleNested selector flds None ctx
   \<and> extractField (NestedField selector flds (Some True) (Some 0)) ctx
       = (case map_throwing (\<lambda>el. buildNestedObject flds el) (select ctx selector) of
            Inl e \<Rightarrow> Inl e | Inr objs \<Rightarrow> Inr (JArray objs))
   \<and> (\<forall>objs. extractField (NestedField selector flds (Some True) (Some 0)) ctx = Inr (JArray objs)
         \<longrightarrow> length objs = length (select ctx selector))"
proof -
  let ?vals = "if select ctx selector = [] then (case dflt of None \<Rightarrow> [] | Some d \<Rightarrow> d)
          else filter (\<lambda>v. v \<noteq> JNull) (map (\<lambda>el. extractValue el (attr_or_text attr)) (select ctx selector))"
  let ?nested = "extractField (NestedField selector flds (Some True) (Some 0)) ctx"
  have l: "limited (Some 0) xs = xs" "limited None xs = xs" for xs :: "'b list"
    by (simp_all add: limited_def)
  have raw: "multiple_raw selector attr dflt (Some 0) ctx = ?vals"
    by (simp add: multiple_raw_def Let_def l)
  have same_raw: "multiple_raw selector attr dflt (Some 0) ctx = multiple_raw selector attr dflt None ctx"
    by (simp add: multiple_raw_def Let_def l)
  have c1: "extractMultipleSimple selector attr dflt None (Some 0) ctx = Inr (JArray ?vals)"
    unfolding extractMultipleSimple_def Let_def raw by simp
  have c2: "extractMultipleSimple selector attr dflt (Some fn) (Some 0) ctx = safeTransform fn (JArray ?vals)"
    unfolding extractMultipleSimple_def Let_def raw by simp
  have c7: "extractMultipleSimple selector attr dflt transform (Some 0) ctx
       = extractMultipleSimple selector attr dflt transform None ctx"
    unfolding extractMultipleSimple_def Let_def same_raw by simp
  have c3: "extractField (MultipleField selector attr dflt transform (Some 0)) ctx
       = extractField (MultipleField selector attr dflt transform None) ctx"
    using c7 by simp
  have c10: "?nested = (case map_throwing (\<lambda>el. buildNestedObject flds el) (select ctx selector) of
            Inl e \<Rightarrow> Inl e | Inr objs \<Rightarrow> Inr (JArray objs))"
    by (simp add: l)
  have c9: "extractMultipleNested selector flds (Some 0) ctx = extractMultipleNested selector flds None ctx"
    by (simp add: l)
  have c4: "?nested = Inr (JArray (map g (select ctx selector)))"
    if "\<forall>el \<in> set (select ctx selector). buildNestedObject flds el = Inr (g el)" for g
    unfolding c10 using map_throwing_all_Inr [OF that] by simp
  have c5: "\<exists>e'. ?nested = Inl e'"
    if "el \<in> set (select ctx selector)" and "buildNestedObject flds el = Inl e" for el e
    unfolding c10
    using that map_throwing_some_Inl [of el "select ctx selector" "buildNestedObject flds" e] by auto
  have c11: "length objs = length (select ctx selector)" if "?nested = Inr (JArray objs)" for objs
    using that unfolding c10 by (auto split: sum.splits dest: map_throwing_length)
  from c1 c2 c3 c4 c5 l(1) c7 raw c9 c10 c11 show ?thesis
    by blast
qed

theorem limit_zero_keeps_all_matches_witness:
  "select ([], links_doc) ''a''
     = [([0], Node ''a'' [(''href'', ''/x'')] [Node [] [] [] ''one''] []),
        ([1], Node ''a'' [] [Node [] [] [] ''two''] []),
        ([2], Node ''a'' [(''href'', ''/z'')] [Node [] [] [] ''three''] [])]
   \<and> extractMultipleSimple ''a'' None None None (Some 0) ([], links_doc)
       = Inr (JArray [JString ''one'', JString ''two'', JString ''three''])
   \<and> extractMultipleSimple ''a'' (Some ''href'') None None (Some 0) ([], links_doc)
       = Inr (JArray [JString ''/x'', JString ''/z''])
   \<and> extractField (NestedField ''a'' [(''label'', SingleField ''q'' None (Some (JString ''-'')) None)]
         (Some True) (Some 0)) ([], links_doc)
       = Inr (JArray [JObject [(''label'', JString ''-'')], JObject [(''label'', JString ''-'')],
                      JObject [(''label'', JString ''-'')]])"
proof -
  let ?flds = "[(''label'', SingleField ''q'' None (Some (JString ''-'')) None)]"
  let ?obj = "JObject [(''label'', JString ''-'')]"
  have sel: "select ([], links_doc) ''a''
     = [([0], Node ''a'' [(''href'', ''/x'')] [Node [] [] [] ''one''] []),
        ([1], Node ''a'' [] [Node [] [] [] ''two''] []),
        ([2], Node ''a'' [(''href'', ''/z'')] [Node [] [] [] ''three''] [])]"
    by code_simp
  have texts: "map (\<lambda>el. extractValue el (attr_or_text None)) (select ([], links_doc) ''a'')
       = [JString ''one'', JString ''two'', JString ''three'']"
    by code_simp
  have href: "map (\<lambda>el. extractValue el (attr_or_text (Some ''href''))) (select ([], links_doc) ''a'')
       = [JString ''/x'', JNull, JString ''/z'']"
    by code_simp
  have objs: "list_all (\<lambda>el. buildNestedObject ?flds el = Inr ?obj) (select ([], links_doc) ''a'')"
    by code_simp
  note t = limit_zero_keeps_all_matches [where selector = "''a''" and ctx = "([], links_doc)"
      and dflt = None and flds = ?flds and fn = boom and transform = None and els = "[] :: nat list"]
  from t [where attr = None]
  have a0: "extractMultipleSimple ''a'' None None None (Some 0) ([], links_doc)
       = Inr (JArray (if select ([], links_doc) ''a'' = [] then (case None of None \<Rightarrow> [] | Some d \<Rightarrow> d)
                      else filter (\<lambda>v. v \<noteq> JNull)
                             (map (\<lambda>el. extractValue el (attr_or_text None)) (select ([], links_doc) ''a''))))"
    by blast
  have a: "extractMultipleSimple ''a'' None None None (Some 0) ([], links_doc)
       = Inr (JArray [JString ''one'', JString ''two'', JString ''three''])"
    unfolding a0 texts by (simp add: sel)
  from t [where attr = "Some ''href''"]
  have b0: "extractMultipleSimple ''a'' (Some ''href'') None None (Some 0) ([], links_doc)
       = Inr (JArray (if select ([], links_doc) ''a'' = [] then (case None of None \<Rightarrow> [] | Some d \<Rightarrow> d)
                      else filter (\<lambda>v. v \<noteq> JNull)
                             (map (\<lambda>el. extractValue el (attr_or_text (Some ''href''))) (select ([], links_doc) ''a''))))"
    by blast
  have b: "extractMultipleSimple ''a'' (Some ''href'') None None (Some 0) ([], links_doc)
       = Inr (JArray [JString ''/x'', JString ''/z''])"
    unfolding b0 href by (simp add: sel)
  from t [where attr = None]
  have n0: "\<forall>g. (\<forall>el \<in> set (select ([], links_doc) ''a''). buildNestedObject ?flds el = Inr (g el))
         \<longrightarrow> extractField (NestedField ''a'' ?flds (Some True) (Some 0)) ([], links_doc)
               = Inr (JArray (map g (select ([], links_doc) ''a'')))"
    by blast
  from objs have o: "\<forall>el \<in> set (select ([], links_doc) ''a''). buildNestedObject ?flds el = Inr ?obj"
    by (simp add: list_all_iff)
  from n0 [THEN spec, of "\<lambda>el. ?obj"] o
  have c: "extractField (NestedField ''a'' ?flds (Some True) (Some 0)) ([], links_doc)
       = Inr (JArray (map (\<lambda>el. ?obj) (select ([], links_doc) ''a'')))"
    by blast
  have c': "extractField (NestedField ''a'' ?flds (Some True) (Some 0)) ([], links_doc)
       = Inr (JArray [?obj, ?obj, ?obj])"
    unfolding c by (simp add: sel)
  from sel a b c' show ?thesis
    by blast
qed


section \<open>The tokenizer\<close>

lemma index_in_le: "index_in pat s = Some k \<Longrightarrow> k < length s"
  by (induction s arbitrary: k) (auto split: if_splits)

lemma indexOf_bounds: "indexOf s pat from = Some k \<Longrightarrow> from \<le> k \<and> k < length s"
proof -
  assume "indexOf s pat from = Some k"
  then obtain j where "index_in pat (drop from s) = Some j" "k = from + j"
    by (auto simp: indexOf_def)
  with index_in_le [of pat "drop from s" j] show ?thesis by auto
qed

lemma tokenize_tag_progress: "lt < gt \<Longrightarrow> tokenize_tag html lt gt tokens = (i', tokens') \<Longrightarrow> lt < i'"
  by (auto simp: tokenize_tag_def Let_def split: if_splits option.splits dest!: indexOf_bounds)

lemma tokenize_step_progress:
  assumes "tokenize_step html i tokens = Inr (i', tokens')"
  shows "i < i'"
proof -
  from assms obtain lt where lt: "indexOf html ''<'' i = Some lt"
    by (auto simp: tokenize_step_def split: option.splits)
  with assms obtain gt where gt: "indexOf html ''>'' (lt + 1) = Some gt"
    by (auto simp: tokenize_step_def Let_def split: option.splits)
  from lt gt assms obtain tokens1 where "tokenize_tag html lt gt tokens1 = (i', tokens')"
    by (auto simp: tokenize_step_def Let_def)
  moreover from indexOf_bounds [OF gt] have "lt < gt" by simp
  ultimately have "lt < i'" by (rule tokenize_tag_progress [rotated])
  with indexOf_bounds [OF lt] show ?thesis by simp
qed

lemma tokenize_loop_returns: "\<exists>ts. tokenize_loop html i tokens = Some ts"
proof (induction "length html - i" arbitrary: i tokens rule: less_induct)
  case less
  show ?case
  proof (cases "i < length html")
    case False
    then show ?thesis by (simp add: tokenize_loop.simps)
  next
    case True
    show ?thesis
    proof (cases "tokenize_step html i tokens")
      case (Inl ts)
      with True show ?thesis by (simp add: tokenize_loop.simps)
    next
      case (Inr nxt)
      obtain i' tokens' where n: "nxt = (i', tokens')" by (cases nxt)
      from tokenize_step_progress [OF Inr [unfolded n]] True
      have "length html - i' < length html - i" by simp
      from less [OF this, of tokens'] Inr n True show ?thesis
        by (subst tokenize_loop.simps) simp
    qed
  qed
qed

text \<open>
  Claim C8. For every input string the tokenizer's loop ends and \<^verbatim>\<open>tokenize\<close> returns a
  token sequence: every pass through the loop body either breaks or moves \<open>i\<close> forward, and
  no case of the body raises (an unterminated tag breaks the loop, an empty tag name, an
  unterminated comment and a missing closing script or style tag skip to after the next
  \<^verbatim>\<open>>\<close>).
\<close>

theorem tokenize_returns: "\<exists>tokens. tokenize html = Some tokens"
  unfolding tokenize_def by (rule tokenize_loop_returns)

section \<open>Attribute names are stored lower-cased\<close>

lemma lower_char_not_capital: "\<not> is_capital (lower_char c)"
  by (auto simp: lower_char_def is_capital_def is_upper_def)

lemma toLowerCase_lower: "list_all (\<lambda>c. \<not> is_capital c) (toLowerCase s)"
  by (simp add: toLowerCase_def list_all_iff lower_char_not_capital)

lemma lower_keys_map_set:
  "lower_keys at \<Longrightarrow> list_all (\<lambda>c. \<not> is_capital c) k \<Longrightarrow> lower_keys (map_set k v at)"
  by (auto simp: lower_keys_def map_set_def list_all_iff split: if_splits)

lemma lower_keys_Nil: "lower_keys []"
  by (simp add: lower_keys_def)

lemma parse_attrs_lower: "lower_keys at \<Longrightarrow> lower_keys (parse_attrs s at)"
proof (induction s at rule: parse_attrs.induct)
  case (1 s at)
  show ?case
  proof (cases "dropWhile (\<lambda>c. \<not> is_attr_name_char c) s")
    case Nil
    with "1.prems" show ?thesis by (subst parse_attrs.simps) (simp only: Nil list.case)
  next
    case (Cons c cs)
    define name where "name = toLowerCase (takeWhile is_attr_name_char (c # cs))"
    define after where "after = dropWhile is_attr_name_char (c # cs)"
    have ok: "lower_keys (if name \<noteq> [] then map_set name v at else at)" for v
      using "1.prems" toLowerCase_lower [of "takeWhile is_attr_name_char (c # cs)"]
      by (simp add: lower_keys_map_set name_def)
    show ?thesis
    proof (cases "attr_value after")
      case None
      have "parse_attrs s at = parse_attrs after (if name \<noteq> [] then map_set name [] at else at)"
        unfolding name_def after_def using None [unfolded after_def]
        by (subst parse_attrs.simps) (simp only: Cons list.case Let_def option.case)
      with "1.IH"(1) [OF Cons name_def after_def None ok]
      show ?thesis by simp
    next
      case (Some x)
      obtain v rest where x: "x = (v, rest)" by (cases x)
      have "parse_attrs s at = parse_attrs rest (if name \<noteq> [] then map_set name v at else at)"
        unfolding name_def after_def using Some [unfolded after_def x]
        by (subst parse_attrs.simps) (simp only: Cons list.case Let_def option.case prod.case)
      with "1.IH"(2) [OF Cons name_def after_def Some x [symmetric] ok]
      show ?thesis by simp
    qed
  qed
qed

lemma token_lower_simps:
  "token_lower (text_token s)" "token_lower (close_token tg)"
  "lower_keys at \<Longrightarrow> token_lower (tag_token b tg at)"
  by (simp_all add: token_lower_def text_token_def close_token_def tag_token_def)

lemma tokenize_tag_lower:
  "list_all token_lower tokens \<Longrightarrow> list_all token_lower (snd (tokenize_tag html lt gt tokens))"
  by (auto simp: tokenize_tag_def Let_def token_lower_simps parse_attrs_lower lower_keys_Nil
      split: option.splits)

lemma push_text_lower: "list_all token_lower tokens \<Longrightarrow> list_all token_lower (push_text s tokens)"
  by (simp add: push_text_def token_lower_simps)

lemma tokenize_step_lower:
  assumes "list_all token_lower tokens"
  shows "tokenize_step html i tokens = Inl ts \<Longrightarrow> list_all token_lower ts"
    and "tokenize_step html i tokens = Inr (i', ts) \<Longrightarrow> list_all token_lower ts"
proof -
  show "tokenize_step html i tokens = Inl ts \<Longrightarrow> list_all token_lower ts"
    using assms push_text_lower [OF assms]
    by (auto simp: tokenize_step_def Let_def split: option.splits if_splits)
  show "tokenize_step html i tokens = Inr (i', ts) \<Longrightarrow> list_all token_lower ts"
  proof -
    assume a: "tokenize_step html i tokens = Inr (i', ts)"
    then obtain lt gt tokens1 where "tokenize_tag html lt gt tokens1 = (i', ts)"
      and "tokens1 = tokens \<or> tokens1 = push_text (slice html i lt) tokens"
      by (auto simp: tokenize_step_def Let_def split: option.splits if_splits)
    with tokenize_tag_lower [of tokens1 html lt gt] assms push_text_lower [OF assms]
    show ?thesis by auto
  qed
qed

lemma tokenize_loop_lower:
  "list_all token_lower tokens \<Longrightarrow> tokenize_loop html i tokens = Some ts \<Longrightarrow> list_all token_lower ts"
proof (induction "length html - i" arbitrary: i tokens rule: less_induct)
  case less
  show ?case
  proof (cases "i < length html")
    case False
    with less.prems show ?thesis by (simp add: tokenize_loop.simps)
  next
    case True
    show ?thesis
    proof (cases "tokenize_step html i tokens")
      case (Inl ts')
      with True less.prems(2) have "ts' = ts" by (simp add: tokenize_loop.simps)
      with tokenize_step_lower(1) [OF less.prems(1) Inl] show ?thesis by simp
    next
      case (Inr nxt)
      obtain i' tokens' where n: "nxt = (i', tokens')" by (cases nxt)
      from tokenize_step_progress [OF Inr [unfolded n]] True
      have m: "length html - i' < length html - i" by simp
      from Inr n True less.prems(2) have "tokenize_loop html i' tokens' = Some ts"
        by (subst (asm) tokenize_loop.simps) simp
      from less.hyps [OF m tokenize_step_lower(2) [OF less.prems(1) Inr [unfolded n]] this]
      show ?thesis .
    qed
  qed
qed

lemma tree_lower_update:
  "tree_lower root \<Longrightarrow> (\<And>n. tree_lower n \<Longrightarrow> tree_lower (f n)) \<Longrightarrow> tree_lower (update_at p f root)"
proof (induction p f root rule: update_at.induct)
  case (1 f n)
  then show ?case by simp
next
  case (2 k p f tg at cs tx)
  show ?case
  proof (cases "k < length cs")
    case False
    with "2.prems" show ?thesis by simp
  next
    case True
    from "2.prems"(1) True have "tree_lower (cs ! k)"
      by (simp add: list_all_length)
    from "2.IH" [OF True this "2.prems"(2)] have "tree_lower (update_at p f (cs ! k))" .
    with "2.prems"(1) True show ?thesis
      by (auto simp: list_all_length nth_list_update)
  qed
qed

lemma tree_lower_push: "tree_lower c \<Longrightarrow> tree_lower n \<Longrightarrow> tree_lower (push_child c n)"
  by (cases n) (simp add: push_child_def)

lemma build_step_lower:
  assumes "tree_lower (fst st)" and "token_lower t"
  shows "tree_lower (fst (build_step st t))"
proof -
  obtain root stack where st: "st = (root, stack)" by (cases st)
  have el: "tree_lower (new_element t)"
    using assms(2) by (auto simp: new_element_def token_lower_def lower_keys_def split: option.splits)
  have tx: "tree_lower (Node [] [] [] s)" for s
    by (simp add: lower_keys_def)
  have up: "tree_lower (update_at p (push_child c) root)" if "tree_lower c" for p c
    using assms(1) st that by (auto intro!: tree_lower_update tree_lower_push)
  show ?thesis
    using assms(1) st up [OF el] up [OF tx]
    by (auto simp: build_step_def split: list.splits option.splits token_type.splits)
qed

lemma build_run_lower: "list_all token_lower ts \<Longrightarrow> tree_lower (fst (build_run ts))"
proof (induction ts rule: rev_induct)
  case Nil
  then show ?case by (simp add: build_run_def build_init_def lower_keys_def)
next
  case (snoc t ts)
  then show ?case by (simp add: build_run_snoc build_step_lower)
qed

lemma descendants_lower:
  "tree_lower n \<Longrightarrow> (q, d) \<in> set (descendants p n) \<Longrightarrow> tree_lower d"
proof (induction p n arbitrary: q d rule: descendants.induct)
  case (1 p tg at cs tx)
  from "1.prems"(2) obtain k c where kc: "(k, c) \<in> set (enumerate 0 cs)"
    and qd: "(q, d) = (p @ [k], c) \<or> (q, d) \<in> set (descendants (p @ [k]) c)"
    by auto
  from kc "1.prems"(1) have c: "tree_lower c"
    by (auto simp: in_set_enumerate_eq list_all_length)
  from qd show ?case
  proof
    assume "(q, d) = (p @ [k], c)"
    with c show ?thesis by simp
  next
    assume "(q, d) \<in> set (descendants (p @ [k]) c)"
    from "1.IH" [OF kc refl c this] show ?thesis .
  qed
qed

lemma lower_keys_no_upper_key:
  "lower_keys at \<Longrightarrow> list_ex is_capital name \<Longrightarrow> map_get at name = None"
proof -
  assume a: "lower_keys at" and b: "list_ex is_capital name"
  have "name \<notin> fst ` set at"
  proof
    assume "name \<in> fst ` set at"
    with a have "list_all (\<lambda>c. \<not> is_capital c) name"
      by (auto simp: lower_keys_def list_all_iff)
    with b show False by (auto simp: list_all_iff list_ex_iff)
  qed
  then show ?thesis
    by (simp add: map_get_def map_of_eq_None_iff)
qed

text \<open>
  The tokenizer lower-cases every attribute name it stores and the tree builder copies the
  token's map: no attribute key of a parsed document, at the document node or at any of
  its descendants, holds a capital letter.
\<close>

lemma parsed_attr_names_lower:
  assumes "parseHTML html = Some doc"
    and "el = doc \<or> el \<in> set (descendants (fst doc) (snd doc))"
  shows "lower_keys (attrs (snd el))"
proof -
  from assms(1) obtain ts where ts: "tokenize html = Some ts" and doc: "doc = ([], buildTree ts)"
    by (auto simp: parseHTML_def split: option.splits)
  from ts have "list_all token_lower ts"
    unfolding tokenize_def by (rule tokenize_loop_lower [rotated]) simp
  then have root: "tree_lower (snd doc)"
    using doc by (simp add: buildTree_def build_run_lower)
  have "tree_lower (snd el)"
    using assms(2) root descendants_lower [of "snd doc" "fst el" "snd el" "fst doc"] by auto
  then show ?thesis
    by (cases "snd el") simp
qed


section \<open>Serialising and parsing again\<close>

lemma attr_string_Cons: "attr_string (kv # rest) = attr_fmt kv @ attr_tail rest"
  by (simp add: attr_string_def join_with_def attr_fmt_def attr_tail_def case_prod_unfold comp_def)

lemma attr_tail_Cons: "attr_tail (kv # rest) = CHR '' '' # attr_fmt kv @ attr_tail rest"
  by (simp add: attr_tail_def)

lemma attr_tail_eq: "attr_tail at = (if attr_string at \<noteq> [] then '' '' @ attr_string at else [])"
  by (cases at) (simp_all add: attr_string_Cons attr_tail_Cons attr_fmt_def, simp add: attr_string_def join_with_def attr_tail_def)

lemma toString_element:
  "toString (Node tg at cs []) =
     ''<'' @ tg @ attr_tail at @ ''>'' @ concat (map toString cs) @ ''</'' @ tg @ ''>''"
  by (simp add: attr_tail_eq Let_def)

lemma prefix_single: "prefix [c] s \<longleftrightarrow> (s \<noteq> [] \<and> hd s = c)"
  by (cases s) auto

lemma index_in_absent: "c \<notin> set xs \<Longrightarrow> index_in [c] xs = None"
  by (induction xs) (auto simp: prefix_single)

lemma index_in_first: "c \<notin> set xs \<Longrightarrow> index_in [c] (xs @ c # rest) = Some (length xs)"
  by (induction xs) (auto simp: prefix_single)

lemma indexOf_drop: "drop i html = sfx \<Longrightarrow> indexOf html pat i = map_option (\<lambda>k. i + k) (index_in pat sfx)"
  by (simp add: indexOf_def)

lemma drop_more: "drop i html = a @ b \<Longrightarrow> drop (i + length a) html = b"
  by (metis add.commute append_eq_conv_conj drop_drop)

lemma slice_of_drop: "drop i html = a @ b \<Longrightarrow> slice html i (i + length a) = a"
  by (simp add: slice_def)

lemma trim_id: "s \<noteq> [] \<Longrightarrow> \<not> is_space (hd s) \<Longrightarrow> \<not> is_space (last s) \<Longrightarrow> trim s = s"
proof -
  assume a: "s \<noteq> []" "\<not> is_space (hd s)" "\<not> is_space (last s)"
  then have "dropWhile is_space s = s"
    by (cases s) simp_all
  moreover from a have "dropWhile is_space (rev s) = rev s"
    by (cases "rev s") (simp_all add: last_rev hd_rev)
  ultimately show ?thesis by (simp add: trim_def)
qed

lemma tag_name_char_facts:
  "is_tag_name_char c \<Longrightarrow> \<not> is_space c \<and> c \<noteq> CHR ''>'' \<and> c \<noteq> CHR ''<'' \<and> c \<noteq> CHR ''!'' \<and> c \<noteq> CHR ''/''"
  by (auto simp: is_tag_name_char_def is_space_def is_lower_def is_upper_def is_digit_def)

lemma toLowerCase_id: "list_all (\<lambda>c. \<not> is_capital c) s \<Longrightarrow> toLowerCase s = s"
  by (induction s) (simp_all add: toLowerCase_def lower_char_def)

lemma attr_value_quoted:
  "CHR 0x22 \<notin> set v \<Longrightarrow> attr_value (CHR ''='' # CHR 0x22 # v @ CHR 0x22 # tail) = Some (v, tail)"
proof -
  assume v: "CHR 0x22 \<notin> set v"
  have sp: "\<not> is_space (CHR ''='')" "\<not> is_space (CHR 0x22)"
    by (simp_all add: is_space_def)
  have q: "is_quote (CHR 0x22)"
    by (simp add: is_quote_def)
  have tw: "takeWhile (\<lambda>c. c \<noteq> CHR 0x22) (v @ CHR 0x22 # tail) = v"
    using v by (induction v) auto
  have dw: "dropWhile (\<lambda>c. c \<noteq> CHR 0x22) (v @ CHR 0x22 # tail) = CHR 0x22 # tail"
    using v by (induction v) auto
  have "quoted_value (CHR 0x22) (v @ CHR 0x22 # tail) = Some (v, tail)"
    unfolding quoted_value_def tw dw by simp
  then show ?thesis
    using sp q by (simp add: attr_value_def)
qed

lemma parse_attrs_step:
  assumes ws: "list_all (\<lambda>c. \<not> is_attr_name_char c) ws" and kv: "plain_attr (k, v)"
  shows "parse_attrs (ws @ attr_fmt (k, v) @ tail) acc = parse_attrs tail (map_set k v acc)"
proof -
  define R where "R = CHR 0x22 # v @ CHR 0x22 # tail"
  from kv obtain c cs where k: "k = c # cs"
    by (cases k) (auto simp: plain_attr_def)
  from kv have kn: "\<forall>x \<in> set k. is_attr_name_char x" and kl: "list_all (\<lambda>c. \<not> is_capital c) k"
    and vq: "CHR 0x22 \<notin> set v"
    by (auto simp: plain_attr_def list_all_iff)
  have eqn: "\<not> is_attr_name_char (CHR ''='')"
    by (simp add: is_attr_name_char_def)
  have s: "ws @ attr_fmt (k, v) @ tail = ws @ k @ CHR ''='' # R"
    by (simp add: attr_fmt_def R_def)
  have d1: "dropWhile (\<lambda>c. \<not> is_attr_name_char c) (ws @ k @ CHR ''='' # R) = c # (cs @ CHR ''='' # R)"
    using ws kn k by (simp add: dropWhile_append list_all_iff)
  have t2: "takeWhile is_attr_name_char (c # (cs @ CHR ''='' # R)) = k"
    using kn eqn k takeWhile_append2 [of k is_attr_name_char "CHR ''='' # R"] by simp
  have d2: "dropWhile is_attr_name_char (c # (cs @ CHR ''='' # R)) = CHR ''='' # R"
    using kn eqn k dropWhile_append2 [of k is_attr_name_char "CHR ''='' # R"] by simp
  have av: "attr_value (CHR ''='' # R) = Some (v, tail)"
    unfolding R_def by (rule attr_value_quoted [OF vq])
  have lk: "toLowerCase k = k"
    by (rule toLowerCase_id [OF kl])
  have "parse_attrs (ws @ k @ CHR ''='' # R) acc = parse_attrs tail (if k \<noteq> [] then map_set k v acc else acc)"
    by (subst parse_attrs.simps)
       (simp only: d1 list.case Let_def t2 d2 av option.case prod.case lk)
  then show ?thesis
    unfolding s using k by simp
qed

lemma parse_attrs_Nil: "parse_attrs [] acc = acc"
  by (subst parse_attrs.simps) simp

lemma parse_attrs_tail:
  "list_all plain_attr xs \<Longrightarrow>
   parse_attrs (attr_tail xs) acc = foldl (\<lambda>a kv. map_set (fst kv) (snd kv) a) acc xs"
proof (induction xs arbitrary: acc)
  case Nil
  then show ?case by (simp add: attr_tail_def parse_attrs_Nil)
next
  case (Cons kv xs)
  have sp: "list_all (\<lambda>c. \<not> is_attr_name_char c) '' ''"
    by (simp add: is_attr_name_char_def is_space_def)
  from Cons.prems have "plain_attr (fst kv, snd kv)" by simp
  from parse_attrs_step [OF sp this, of "attr_tail xs" acc] Cons.IH Cons.prems
  show ?case by (simp add: attr_tail_Cons)
qed

lemma parse_attrs_string:
  "list_all plain_attr xs \<Longrightarrow>
   parse_attrs (attr_string xs) acc = foldl (\<lambda>a kv. map_set (fst kv) (snd kv) a) acc xs"
proof (cases xs)
  case Nil
  then show ?thesis by (simp add: attr_string_def join_with_def parse_attrs_Nil)
next
  case (Cons kv rest)
  assume "list_all plain_attr xs"
  with Cons have kv: "plain_attr (fst kv, snd kv)" and rest: "list_all plain_attr rest"
    by simp_all
  have "list_all (\<lambda>c. \<not> is_attr_name_char c) []" by simp
  from parse_attrs_step [OF this kv, of "attr_tail rest" acc] parse_attrs_tail [OF rest]
  show ?thesis by (simp add: Cons attr_string_Cons)
qed

lemma foldl_map_set_distinct:
  "distinct (map fst (acc @ xs)) \<Longrightarrow> foldl (\<lambda>a kv. map_set (fst kv) (snd kv) a) acc xs = acc @ xs"
proof (induction xs arbitrary: acc)
  case Nil
  then show ?case by simp
next
  case (Cons kv xs)
  from Cons.prems have "fst kv \<notin> fst ` set acc" by auto
  then have "map_set (fst kv) (snd kv) acc = acc @ [kv]"
    by (simp add: map_set_def)
  with Cons.IH [of "acc @ [kv]"] Cons.prems show ?case by simp
qed

lemma parse_attrs_roundtrip:
  "list_all plain_attr at \<Longrightarrow> distinct (map fst at) \<Longrightarrow> parse_attrs (attr_string at) [] = at"
  using parse_attrs_string [of at "[]"] foldl_map_set_distinct [of "[]" at] by simp

lemma trim_eq: "dropWhile is_space s = t \<Longrightarrow> t \<noteq> [] \<Longrightarrow> \<not> is_space (last t) \<Longrightarrow> trim s = t"
proof -
  assume a: "dropWhile is_space s = t" "t \<noteq> []" "\<not> is_space (last t)"
  then have "dropWhile is_space (rev t) = rev t"
    by (cases "rev t") (simp_all add: hd_rev)
  with a show ?thesis by (simp add: trim_def)
qed

lemma trim_Nil: "trim [] = []"
  by (simp add: trim_def)

lemma slash_at_end_last: "s \<noteq> [] \<Longrightarrow> \<not> is_space (last s) \<Longrightarrow> slash_at_end s = (last s = CHR ''/'')"
proof -
  assume a: "s \<noteq> []" "\<not> is_space (last s)"
  then have "dropWhile is_space (rev s) = rev s"
    by (cases "rev s") (simp_all add: hd_rev)
  then have "slash_at_end s = (case rev s of [] \<Rightarrow> False | c # r \<Rightarrow> c = CHR ''/'')"
    by (simp add: slash_at_end_def)
  moreover have "last s = hd (rev s)"
    by (simp add: hd_rev)
  moreover from a(1) obtain c r where "rev s = c # r"
    by (cases "rev s") auto
  ultimately show ?thesis by simp
qed

lemma slash_at_end_Nil: "slash_at_end [] = False"
  by (simp add: slash_at_end_def)

lemma attr_fmt_facts:
  assumes "plain_attr kv"
  shows "attr_fmt kv \<noteq> []" "\<not> is_space (hd (attr_fmt kv))" "last (attr_fmt kv) = CHR 0x22"
    "CHR ''>'' \<notin> set (attr_fmt kv)"
proof -
  from assms obtain c cs where k: "fst kv = c # cs"
    by (cases "fst kv") (auto simp: plain_attr_def)
  with assms have "is_attr_name_char c"
    by (simp add: plain_attr_def)
  then show "\<not> is_space (hd (attr_fmt kv))"
    using k by (simp add: attr_fmt_def is_attr_name_char_def)
  show "attr_fmt kv \<noteq> []" "last (attr_fmt kv) = CHR 0x22"
    by (simp_all add: attr_fmt_def)
  show "CHR ''>'' \<notin> set (attr_fmt kv)"
    using assms by (auto simp: attr_fmt_def plain_attr_def list_all_iff)
qed

lemma attr_tail_no_gt: "list_all plain_attr at \<Longrightarrow> CHR ''>'' \<notin> set (attr_tail at)"
  by (induction at) (simp_all add: attr_tail_def attr_fmt_facts(4))

lemma attr_tail_last: "at \<noteq> [] \<Longrightarrow> last (attr_tail at) = CHR 0x22"
proof (induction at)
  case Nil
  then show ?case by simp
next
  case (Cons kv at)
  show ?case
  proof (cases at)
    case Nil
    then show ?thesis by (simp add: attr_tail_def attr_fmt_def)
  next
    case (Cons kv' at')
    with Cons.IH have "last (attr_tail at) = CHR 0x22" "attr_tail at \<noteq> []"
      by (simp_all add: attr_tail_def)
    then show ?thesis by (simp add: attr_tail_Cons)
  qed
qed

lemma attr_string_facts:
  assumes "list_all plain_attr at" "at \<noteq> []"
  shows "attr_string at \<noteq> []" "\<not> is_space (hd (attr_string at))" "last (attr_string at) = CHR 0x22"
    "attr_tail at = CHR '' '' # attr_string at"
proof -
  from assms obtain kv rest where at: "at = kv # rest" by (cases at) auto
  with assms have kv: "plain_attr kv" by simp
  show "attr_string at \<noteq> []"
    using attr_fmt_facts(1) [OF kv] by (simp add: at attr_string_Cons)
  show "\<not> is_space (hd (attr_string at))"
    using attr_fmt_facts(1,2) [OF kv] by (simp add: at attr_string_Cons)
  show t: "attr_tail at = CHR '' '' # attr_string at"
    by (simp add: at attr_string_Cons attr_tail_Cons)
  from attr_tail_last [OF assms(2)] show "last (attr_string at) = CHR 0x22"
    using \<open>attr_string at \<noteq> []\<close> by (simp add: t)
qed

lemma attr_part_roundtrip:
  assumes "list_all plain_attr at" "distinct (map fst at)"
  shows "(let attrPart = strip_slash_at_end (trim (attr_tail at))
          in if attrPart \<noteq> [] then parse_attrs attrPart [] else []) = at"
proof (cases at)
  case Nil
  then show ?thesis
    by (simp add: attr_tail_def trim_Nil strip_slash_at_end_def slash_at_end_Nil)
next
  case (Cons kv rest)
  then have ne: "at \<noteq> []" by simp
  note f = attr_string_facts [OF assms(1) ne]
  have sp: "is_space (CHR '' '')" by (simp add: is_space_def)
  have q: "\<not> is_space (CHR 0x22)" "CHR 0x22 \<noteq> CHR ''/''" by (simp_all add: is_space_def)
  have "dropWhile is_space (attr_tail at) = attr_string at"
    using f(1,2) sp by (cases "attr_string at") (simp_all add: f(4))
  from trim_eq [OF this f(1)] f(3) q have t: "trim (attr_tail at) = attr_string at"
    by simp
  have "slash_at_end (attr_string at) = False"
    using slash_at_end_last [OF f(1)] f(3) q by simp
  then have s: "strip_slash_at_end (attr_string at) = attr_string at"
    by (simp add: strip_slash_at_end_def)
  show ?thesis
    using f(1) parse_attrs_roundtrip [OF assms] by (simp add: t s)
qed

lemma tag_body_facts:
  assumes tg: "plain_tag tg" and at: "list_all plain_attr at"
  shows "trim (tg @ attr_tail at) = tg @ attr_tail at"
    and "hd (tg @ attr_tail at) = hd tg"
    and "takeWhile is_tag_name_char (tg @ attr_tail at) = tg"
    and "slash_at_end (tg @ attr_tail at) = False"
    and "CHR ''>'' \<notin> set (tg @ attr_tail at)"
    and "tg @ attr_tail at \<noteq> []"
proof -
  from tg have ne: "tg \<noteq> []" and nm: "\<forall>c \<in> set tg. is_tag_name_char c"
    by (auto simp: plain_tag_def list_all_iff)
  show "tg @ attr_tail at \<noteq> []" using ne by simp
  show h: "hd (tg @ attr_tail at) = hd tg" using ne by simp
  have hs: "\<not> is_space (hd tg)"
    using ne nm tag_name_char_facts [of "hd tg"] by simp
  have q: "\<not> is_space (CHR 0x22)" "CHR 0x22 \<noteq> CHR ''/''" by (simp_all add: is_space_def)
  have l: "\<not> is_space (last (tg @ attr_tail at)) \<and> last (tg @ attr_tail at) \<noteq> CHR ''/''"
  proof (cases at)
    case Nil
    with ne nm tag_name_char_facts [of "last tg"] show ?thesis
      by (simp add: attr_tail_def)
  next
    case (Cons kv rest)
    then have "at \<noteq> []" by simp
    from attr_tail_last [OF this] q show ?thesis
      using Cons by (simp add: attr_tail_Cons)
  qed
  from l hs ne show "trim (tg @ attr_tail at) = tg @ attr_tail at"
    by (intro trim_id) simp_all
  from l ne slash_at_end_last [of "tg @ attr_tail at"] show "slash_at_end (tg @ attr_tail at) = False"
    by simp
  have "attr_tail at = [] \<or> \<not> is_tag_name_char (hd (attr_tail at))"
    using tag_name_char_facts [of "CHR '' ''"] by (cases at) (auto simp: attr_tail_def is_space_def)
  then show "takeWhile is_tag_name_char (tg @ attr_tail at) = tg"
    using nm by (cases "attr_tail at") (simp_all add: takeWhile_tail)
  show "CHR ''>'' \<notin> set (tg @ attr_tail at)"
    using nm tag_name_char_facts attr_tail_no_gt [OF at] by auto
qed

lemma tokenize_tag_open:
  assumes sl: "slice html (lt + 1) gt = tg @ attr_tail at"
    and tg: "plain_tag tg" and at: "list_all plain_attr at" "distinct (map fst at)"
  shows "tokenize_tag html lt gt tokens = (gt + 1, tokens @ [tag_token (tg \<in> set selfClosingTags) tg at])"
proof -
  note b = tag_body_facts [OF tg at(1)]
  from tg have ne: "tg \<noteq> []" and nm: "is_tag_name_char (hd tg)"
    and low: "list_all (\<lambda>c. \<not> is_capital c) tg" and ns: "tg \<noteq> ''script''" "tg \<noteq> ''style''"
    by (auto simp: plain_tag_def list_all_iff)
  have raw: "trim (slice html (lt + 1) gt) = tg @ attr_tail at"
    by (simp only: sl b(1))
  from ne obtain c cs where tgc: "tg = c # cs" by (cases tg) auto
  with nm have "c \<noteq> CHR ''!''" "c \<noteq> CHR ''/''"
    using tag_name_char_facts [of c] by simp_all
  then have np: "prefix ''!--'' (tg @ attr_tail at) = False" "prefix ''!'' (tg @ attr_tail at) = False"
    "prefix ''/'' (tg @ attr_tail at) = False"
    by (simp_all add: tgc)
  have lw: "toLowerCase tg = tg"
    by (rule toLowerCase_id [OF low])
  have dr: "drop (length tg) (tg @ attr_tail at) = attr_tail at"
    by simp
  have apr: "(if strip_slash_at_end (trim (attr_tail at)) \<noteq> []
              then parse_attrs (strip_slash_at_end (trim (attr_tail at))) [] else []) = at"
    using attr_part_roundtrip [OF at] by (simp only: Let_def)
  have cond: "(tg = []) = False" "(tg = ''script'' \<or> tg = ''style'') = False"
    using ne ns by simp_all
  show ?thesis
    unfolding tokenize_tag_def raw Let_def
    by (simp only: np if_False b(3) lw dr apr b(4) cond simp_thms)
qed

lemma drop_Suc_of: "drop i html = c # r \<Longrightarrow> drop (i + 1) html = r"
  using drop_more [of i html "[c]" r] by simp

lemma drop_nonempty: "drop i html = c # r \<Longrightarrow> i < length html"
  by (cases "i < length html") simp_all

lemma indexOf_here: "drop i html = c # r \<Longrightarrow> indexOf html [c] i = Some i"
  by (simp add: indexOf_drop)

lemma tokenize_loop_unfold:
  "i < length html \<Longrightarrow>
   tokenize_loop html i tokens =
     (case tokenize_step html i tokens of
        Inl tokens' \<Rightarrow> Some tokens'
      | Inr (i', tokens') \<Rightarrow> tokenize_loop html i' tokens')"
  by (subst tokenize_loop.simps) simp

lemma tokenize_loop_step:
  "i < length html \<Longrightarrow> tokenize_step html i tokens = Inr (i', tokens') \<Longrightarrow>
   tokenize_loop html i tokens = tokenize_loop html i' tokens'"
  by (subst tokenize_loop.simps) simp

lemma step_open:
  assumes d: "drop i html = CHR ''<'' # (tg @ attr_tail at) @ CHR ''>'' # rest"
    and tg: "plain_tag tg" and at: "list_all plain_attr at" "distinct (map fst at)"
  shows "tokenize_step html i tokens =
     Inr (i + length (tg @ attr_tail at) + 2, tokens @ [tag_token (tg \<in> set selfClosingTags) tg at])"
proof -
  define body where "body = tg @ attr_tail at"
  define gt where "gt = i + 1 + length body"
  note b = tag_body_facts [OF tg at(1), folded body_def]
  have lt: "indexOf html ''<'' i = Some i"
    by (rule indexOf_here [OF d])
  have d1: "drop (i + 1) html = body @ CHR ''>'' # rest"
    using drop_Suc_of [OF d] by (simp add: body_def)
  have g: "indexOf html ''>'' (i + 1) = Some gt"
    using indexOf_drop [OF d1, of "''>''"] index_in_first [OF b(5), of rest]
    by (simp add: gt_def)
  have sl: "slice html (i + 1) gt = tg @ attr_tail at"
    using slice_of_drop [OF d1] by (simp add: gt_def body_def)
  have "tokenize_step html i tokens = Inr (tokenize_tag html i gt tokens)"
    using g by (simp add: tokenize_step_def lt)
  also have "\<dots> = Inr (gt + 1, tokens @ [tag_token (tg \<in> set selfClosingTags) tg at])"
    by (simp only: tokenize_tag_open [OF sl tg at])
  finally show ?thesis
    by (simp add: gt_def body_def)
qed

lemma tokenize_tag_close:
  assumes sl: "slice html (lt + 1) gt = CHR ''/'' # tg" and tg: "plain_tag tg"
  shows "tokenize_tag html lt gt tokens = (gt + 1, tokens @ [close_token tg])"
proof -
  from tg have ne: "tg \<noteq> []" and nm: "\<forall>c \<in> set tg. is_tag_name_char c"
    and low: "list_all (\<lambda>c. \<not> is_capital c) tg"
    by (auto simp: plain_tag_def list_all_iff)
  have sp: "\<not> is_space (CHR ''/'')" by (simp add: is_space_def)
  have ls: "\<not> is_space (last tg)" "\<not> is_space (hd tg)"
    using ne nm tag_name_char_facts [of "last tg"] tag_name_char_facts [of "hd tg"] by simp_all
  have raw: "trim (slice html (lt + 1) gt) = CHR ''/'' # tg"
    unfolding sl using ne sp ls by (intro trim_id) simp_all
  have tt: "trim tg = tg"
    using ne ls by (intro trim_id) simp_all
  have np: "prefix ''!--'' (CHR ''/'' # tg) = False" "prefix ''!'' (CHR ''/'' # tg) = False"
    "prefix ''/'' (CHR ''/'' # tg) = True"
    by simp_all
  have dr: "drop 1 (CHR ''/'' # tg) = tg" by simp
  have lw: "toLowerCase tg = tg"
    by (rule toLowerCase_id [OF low])
  have cond: "(tg \<noteq> []) = True" using ne by simp
  show ?thesis
    unfolding tokenize_tag_def raw Let_def
    by (simp only: np if_False if_True dr tt lw cond)
qed

lemma step_close:
  assumes d: "drop i html = CHR ''<'' # (CHR ''/'' # tg) @ CHR ''>'' # rest" and tg: "plain_tag tg"
  shows "tokenize_step html i tokens = Inr (i + length tg + 3, tokens @ [close_token tg])"
proof -
  define gt where "gt = i + 1 + length (CHR ''/'' # tg)"
  from tg have nm: "\<forall>c \<in> set tg. is_tag_name_char c"
    by (auto simp: plain_tag_def list_all_iff)
  have ngt: "CHR ''>'' \<notin> set (CHR ''/'' # tg)"
    using nm tag_name_char_facts by auto
  have lt: "indexOf html ''<'' i = Some i"
    by (rule indexOf_here [OF d])
  have d1: "drop (i + 1) html = (CHR ''/'' # tg) @ CHR ''>'' # rest"
    using drop_Suc_of [OF d] by simp
  have g: "indexOf html ''>'' (i + 1) = Some gt"
    using indexOf_drop [OF d1, of "''>''"] index_in_first [OF ngt, of rest]
    by (simp add: gt_def)
  have sl: "slice html (i + 1) gt = CHR ''/'' # tg"
    using slice_of_drop [OF d1] by (simp add: gt_def)
  have "tokenize_step html i tokens = Inr (tokenize_tag html i gt tokens)"
    using g by (simp add: tokenize_step_def lt)
  also have "\<dots> = Inr (gt + 1, tokens @ [close_token tg])"
    by (simp only: tokenize_tag_close [OF sl tg])
  finally show ?thesis
    by (simp add: gt_def)
qed

lemma step_text:
  assumes d: "drop i html = tx @ post" and tx: "tx \<noteq> []" "CHR ''<'' \<notin> set tx"
    and post: "post = [] \<or> hd post = CHR ''<''"
  shows "tokenize_loop html i tokens = tokenize_loop html (i + length tx) (tokens @ [text_token tx])"
proof (cases post)
  case Nil
  with d have dd: "drop i html = tx" by simp
  with tx have i: "i < length html" by (cases "i < length html") simp_all
  from dd have len: "length html = i + length tx"
    using i by (metis add_diff_inverse_nat length_drop not_less_iff_gr_or_eq)
  have "indexOf html ''<'' i = None"
    using indexOf_drop [OF dd, of "''<''"] index_in_absent [OF tx(2)] by simp
  then have "tokenize_step html i tokens = Inl (tokens @ [text_token tx])"
    using tx(1) by (simp add: tokenize_step_def dd push_text_def)
  then have "tokenize_loop html i tokens = Some (tokens @ [text_token tx])"
    using i by (subst tokenize_loop.simps) simp
  moreover have "tokenize_loop html (i + length tx) (tokens @ [text_token tx]) = Some (tokens @ [text_token tx])"
    using len by (subst tokenize_loop.simps) simp
  ultimately show ?thesis by simp
next
  case (Cons c post')
  with post have c: "c = CHR ''<''" by simp
  define j where "j = i + length tx"
  have dj: "drop j html = CHR ''<'' # post'"
    using drop_more [OF d] Cons c by (simp add: j_def)
  have i: "i < length html"
    using d tx(1) by (cases "i < length html") simp_all
  have jl: "j < length html"
    by (rule drop_nonempty [OF dj])
  have li: "indexOf html ''<'' i = Some j"
    using indexOf_drop [OF d, of "''<''"] index_in_first [OF tx(2), of post'] Cons c
    by (simp add: j_def)
  have lj: "indexOf html ''<'' j = Some j"
    by (rule indexOf_here [OF dj])
  have sl: "slice html i j = tx"
    using slice_of_drop [OF d] by (simp add: j_def)
  have ji: "i < j" using tx(1) by (simp add: j_def)
  have "tokenize_step html i tokens = tokenize_step html j (tokens @ [text_token tx])"
    using ji tx(1) by (simp add: tokenize_step_def li lj sl push_text_def Let_def)
  then have "tokenize_loop html i tokens = tokenize_loop html j (tokens @ [text_token tx])"
    by (simp only: tokenize_loop_unfold [OF i] tokenize_loop_unfold [OF jl])
  then show ?thesis by (simp add: j_def)
qed

lemma toString_element_hd:
  "\<not> is_text_leaf n \<Longrightarrow> \<exists>r. toString n = CHR ''<'' # r"
  by (cases n) (simp add: is_text_leaf_def Let_def)

lemma toString_nonempty: "plain_node n \<Longrightarrow> toString n \<noteq> []"
  by (cases n) (simp add: Let_def split: if_splits)

lemma tokenize_children:
  assumes IH: "\<And>c html i tokens post. c \<in> set cs \<Longrightarrow> plain_node c \<Longrightarrow>
      drop i html = toString c @ post \<Longrightarrow> (is_text_leaf c \<Longrightarrow> post = [] \<or> hd post = CHR ''<'') \<Longrightarrow>
      tokenize_loop html i tokens = tokenize_loop html (i + length (toString c)) (tokens @ node_tokens c)"
    and pl: "list_all plain_node cs" and adj: "no_adjacent_text cs"
    and d: "drop i html = concat (map toString cs) @ post"
    and post: "post = [] \<or> hd post = CHR ''<''"
  shows "tokenize_loop html i tokens
       = tokenize_loop html (i + length (concat (map toString cs))) (tokens @ concat (map node_tokens cs))"
  using IH pl adj d
proof (induction cs arbitrary: i tokens)
  case Nil
  then show ?case by simp
next
  case (Cons c rest)
  define post_c where "post_c = concat (map toString rest) @ post"
  from Cons.prems(4) have dc: "drop i html = toString c @ post_c"
    by (simp add: post_c_def)
  have pc: "post_c = [] \<or> hd post_c = CHR ''<''" if "is_text_leaf c"
  proof (cases rest)
    case Nil
    with post show ?thesis by (simp add: post_c_def)
  next
    case (Cons r rest')
    with Cons.prems(3) that have "\<not> is_text_leaf r" by simp
    from toString_element_hd [OF this] obtain x where "toString r = CHR ''<'' # x" ..
    with Cons show ?thesis by (simp add: post_c_def)
  qed
  from Cons.prems(2) have plc: "plain_node c" and plr: "list_all plain_node rest"
    by simp_all
  from Cons.prems(3) have adjr: "no_adjacent_text rest"
    by (cases rest) simp_all
  have one: "tokenize_loop html i tokens = tokenize_loop html (i + length (toString c)) (tokens @ node_tokens c)"
    by (rule Cons.prems(1) [OF _ plc dc pc]) simp_all
  have dr: "drop (i + length (toString c)) html = concat (map toString rest) @ post"
    using drop_more [OF dc] by (simp add: post_c_def)
  have "tokenize_loop html (i + length (toString c)) (tokens @ node_tokens c)
      = tokenize_loop html (i + length (toString c) + length (concat (map toString rest)))
          ((tokens @ node_tokens c) @ concat (map node_tokens rest))"
    by (rule Cons.IH [OF Cons.prems(1) plr adjr dr]) simp_all
  with one show ?case
    by (simp add: add.assoc)
qed

lemma tokenize_node:
  "plain_node n \<Longrightarrow> drop i html = toString n @ post \<Longrightarrow>
   (is_text_leaf n \<Longrightarrow> post = [] \<or> hd post = CHR ''<'') \<Longrightarrow>
   tokenize_loop html i tokens = tokenize_loop html (i + length (toString n)) (tokens @ node_tokens n)"
proof (induction n arbitrary: html i tokens post)
  case (Node tg at cs tx)
  show ?case
  proof (cases "tx = []")
    case False
    with Node.prems(1) have "CHR ''<'' \<notin> set tx" by simp
    from step_text [OF _ False this, of i html post tokens] Node.prems(2,3) False
    show ?thesis by (simp add: is_text_leaf_def)
  next
    case True
    with Node.prems(1) have tg: "plain_tag tg" and at: "list_all plain_attr at" "distinct (map fst at)"
      and pl: "list_all plain_node cs" and adj: "no_adjacent_text cs"
      by simp_all
    define inner where "inner = concat (map toString cs)"
    define open_tok where "open_tok = tag_token (tg \<in> set selfClosingTags) tg at"
    define i1 where "i1 = i + length (tg @ attr_tail at) + 2"
    define i2 where "i2 = i1 + length inner"
    define closing where "closing = CHR ''<'' # (CHR ''/'' # tg) @ CHR ''>'' # post"
    have ts: "toString (Node tg at cs tx) = CHR ''<'' # (tg @ attr_tail at) @ CHR ''>'' # inner @ CHR ''<'' # (CHR ''/'' # tg) @ ''>''"
      unfolding True toString_element by (simp add: inner_def)
    have d0: "drop i html = CHR ''<'' # (tg @ attr_tail at) @ CHR ''>'' # (inner @ closing)"
      using Node.prems(2) unfolding ts by (simp add: closing_def)
    have il: "i < length html"
      by (rule drop_nonempty [OF d0])
    have s1: "tokenize_loop html i tokens = tokenize_loop html i1 (tokens @ [open_tok])"
      using tokenize_loop_step [OF il step_open [OF d0 tg at]] by (simp add: i1_def open_tok_def)
    have d1: "drop i1 html = inner @ closing"
      using drop_more [of i html "CHR ''<'' # (tg @ attr_tail at) @ ''>''" "inner @ closing"] d0
      by (simp add: i1_def)
    have s2: "tokenize_loop html i1 (tokens @ [open_tok])
        = tokenize_loop html i2 ((tokens @ [open_tok]) @ concat (map node_tokens cs))"
      unfolding i2_def inner_def
    proof (rule tokenize_children [OF _ pl adj])
      show "drop i1 html = concat (map toString cs) @ closing"
        using d1 by (simp add: inner_def)
      show "closing = [] \<or> hd closing = CHR ''<''"
        by (simp add: closing_def)
    next
      fix c html i tokens post
      assume "c \<in> set cs" "plain_node c" "drop i html = toString c @ post"
        "is_text_leaf c \<Longrightarrow> post = [] \<or> hd post = CHR ''<''"
      then show "tokenize_loop html i tokens = tokenize_loop html (i + length (toString c)) (tokens @ node_tokens c)"
        by (rule Node.IH)
    qed
    have d2: "drop i2 html = closing"
      using drop_more [OF d1] by (simp add: i2_def)
    have i2l: "i2 < length html"
      using d2 by (intro drop_nonempty [of i2 html "CHR ''<''"]) (simp add: closing_def)
    have s3: "tokenize_loop html i2 ((tokens @ [open_tok]) @ concat (map node_tokens cs))
        = tokenize_loop html (i2 + length tg + 3) (((tokens @ [open_tok]) @ concat (map node_tokens cs)) @ [close_token tg])"
      by (rule tokenize_loop_step [OF i2l step_close [OF d2 [unfolded closing_def] tg]])
    have len: "i2 + length tg + 3 = i + length (toString (Node tg at cs tx))"
      unfolding ts by (simp add: i2_def i1_def)
    have toks: "((tokens @ [open_tok]) @ concat (map node_tokens cs)) @ [close_token tg]
        = tokens @ node_tokens (Node tg at cs tx)"
      by (simp add: True open_tok_def)
    show ?thesis
      using s1 s2 s3 by (simp only: len toks)
  qed
qed

lemma tokenize_toString_children:
  assumes "list_all plain_node cs" "no_adjacent_text cs"
  shows "tokenize (concat (map toString cs)) = Some (concat (map node_tokens cs))"
proof -
  define html where "html = concat (map toString cs)"
  have "tokenize_loop html 0 [] = tokenize_loop html (0 + length (concat (map toString cs))) ([] @ concat (map node_tokens cs))"
    by (rule tokenize_children [OF tokenize_node assms, where post = "[]"]) (simp_all add: html_def)
  also have "\<dots> = Some (concat (map node_tokens cs))"
    by (subst tokenize_loop.simps) (simp add: html_def)
  finally show ?thesis
    by (simp add: tokenize_def html_def)
qed

lemma node_at_update_same:
  "node_at root p = Some par \<Longrightarrow> node_at (update_at p f root) p = Some (f par)"
proof (induction p f root rule: update_at.induct)
  case (1 f n)
  then show ?case by simp
next
  case (2 k p f tg at cs tx)
  then show ?case by (auto split: if_splits)
qed

lemma update_at_compose:
  "update_at p f (update_at p g root) = update_at p (\<lambda>n. f (g n)) root"
proof (induction p g root rule: update_at.induct)
  case (1 g n)
  then show ?case by simp
next
  case (2 k p g tg at cs tx)
  then show ?case by simp
qed

lemma update_at_id: "update_at p (\<lambda>n. n) root = root"
proof (induction p "\<lambda>n::node. n" root rule: update_at.induct)
  case (1 n)
  then show ?case by simp
next
  case (2 k p tg at cs tx)
  then show ?case by (simp add: list_update_same_conv)
qed

lemma update_pushed_child:
  "node_at root p = Some par \<Longrightarrow>
   update_at (p @ [length (children par)]) f (update_at p (push_child c) root)
     = update_at p (push_child (f c)) root"
proof (induction p "push_child c" root rule: update_at.induct)
  case (1 n)
  then show ?case
    by (cases n) (simp add: push_child_def)
next
  case (2 k p tg at cs tx)
  then show ?case by (auto split: if_splits)
qed

lemma append_children_Nil: "append_children [] = (\<lambda>n. n)"
  by (rule ext) (simp add: append_children_def)

lemma append_children_Cons: "(\<lambda>n. append_children rest (push_child c n)) = append_children (c # rest)"
  by (rule ext) (simp add: append_children_def push_child_def)

lemma new_element_tag_token: "new_element (tag_token b tg at) = Node tg at [] []"
  by (simp add: new_element_def tag_token_def)

lemma tag_token_type: "tok_type (tag_token b tg at) = (if b then TSelfClosing else TOpen)"
  by (simp add: tag_token_def)

lemma build_step_text:
  "node_at root cur = Some par \<Longrightarrow> tx \<noteq> [] \<Longrightarrow>
   build_step (root, cur # below) (text_token tx) = (update_at cur (push_child (Node [] [] [] tx)) root, cur # below)"
  by (simp add: build_step_def text_token_def)

lemma build_step_open:
  "node_at root cur = Some par \<Longrightarrow>
   build_step (root, cur # below) (tag_token False tg at)
     = (update_at cur (push_child (Node tg at [] [])) root, (cur @ [length (children par)]) # cur # below)"
  by (simp add: build_step_def new_element_tag_token tag_token_type)

lemma build_step_void:
  "node_at root cur = Some par \<Longrightarrow>
   build_step (root, cur # below) (tag_token True tg at)
     = (update_at cur (push_child (Node tg at [] [])) root, cur # below)"
  by (simp add: build_step_def new_element_tag_token tag_token_type)

lemma build_step_close_pop:
  "node_at root cur = Some n \<Longrightarrow> tag n = tg \<Longrightarrow>
   build_step (root, cur # p # below) (close_token tg) = (root, p # below)"
  by (simp add: build_step_def close_token_def)

lemma build_step_close_keep:
  "node_at root cur = Some n \<Longrightarrow> tag n \<noteq> tg \<Longrightarrow>
   build_step (root, cur # below) (close_token tg) = (root, cur # below)"
  by (auto simp: build_step_def close_token_def)

lemma build_children:
  assumes IH: "\<And>c root cur below par. c \<in> set cs \<Longrightarrow> plain_node c \<Longrightarrow> node_at root cur = Some par \<Longrightarrow>
      tag par \<notin> set selfClosingTags \<Longrightarrow>
      foldl build_step (root, cur # below) (node_tokens c) = (update_at cur (push_child c) root, cur # below)"
    and pl: "list_all plain_node cs" and par: "node_at root cur = Some par"
    and nv: "tag par \<notin> set selfClosingTags"
  shows "foldl build_step (root, cur # below) (concat (map node_tokens cs))
       = (update_at cur (append_children cs) root, cur # below)"
  using IH pl par nv
proof (induction cs arbitrary: root par)
  case Nil
  then show ?case by (simp add: append_children_Nil update_at_id)
next
  case (Cons c rest)
  from Cons.prems(2) have plc: "plain_node c" and plr: "list_all plain_node rest"
    by simp_all
  define root1 where "root1 = update_at cur (push_child c) root"
  have one: "foldl build_step (root, cur # below) (node_tokens c) = (root1, cur # below)"
    unfolding root1_def by (rule Cons.prems(1) [OF _ plc Cons.prems(3,4)]) simp
  have par1: "node_at root1 cur = Some (push_child c par)"
    unfolding root1_def by (rule node_at_update_same [OF Cons.prems(3)])
  have nv1: "tag (push_child c par) \<notin> set selfClosingTags"
    using Cons.prems(4) by (simp add: push_child_def)
  have "foldl build_step (root1, cur # below) (concat (map node_tokens rest))
      = (update_at cur (append_children rest) root1, cur # below)"
    by (rule Cons.IH [OF Cons.prems(1) plr par1 nv1]) simp_all
  moreover have "update_at cur (append_children rest) root1 = update_at cur (append_children (c # rest)) root"
    unfolding root1_def update_at_compose append_children_Cons ..
  ultimately show ?case
    using one by simp
qed

lemma build_node:
  "plain_node n \<Longrightarrow> node_at root cur = Some par \<Longrightarrow> tag par \<notin> set selfClosingTags \<Longrightarrow>
   foldl build_step (root, cur # below) (node_tokens n) = (update_at cur (push_child n) root, cur # below)"
proof (induction n arbitrary: root cur below par)
  case (Node tg at cs tx)
  note par = Node.prems(2)
  show ?case
  proof (cases "tx = []")
    case False
    with Node.prems(1) have "tg = []" "at = []" "cs = []" by simp_all
    with False build_step_text [OF par False, of below] show ?thesis by simp
  next
    case True
    with Node.prems(1) have pl: "list_all plain_node cs"
      and void: "tg \<in> set selfClosingTags \<Longrightarrow> cs = []"
      by simp_all
    define root1 where "root1 = update_at cur (push_child (Node tg at [] [])) root"
    have par1: "node_at root1 cur = Some (push_child (Node tg at [] []) par)"
      unfolding root1_def by (rule node_at_update_same [OF par])
    show ?thesis
    proof (cases "tg \<in> set selfClosingTags")
      case True
      with void have cs: "cs = []" by simp
      from True Node.prems(3) have ne: "tag (push_child (Node tg at [] []) par) \<noteq> tg"
        by (auto simp: push_child_def)
      have "foldl build_step (root, cur # below) (node_tokens (Node tg at cs tx))
          = build_step (build_step (root, cur # below) (tag_token True tg at)) (close_token tg)"
        using True \<open>tx = []\<close> cs by simp
      also have "\<dots> = build_step (root1, cur # below) (close_token tg)"
        by (simp only: build_step_void [OF par] root1_def)
      also have "\<dots> = (root1, cur # below)"
        by (rule build_step_close_keep [OF par1 ne])
      finally show ?thesis
        using \<open>tx = []\<close> cs by (simp add: root1_def)
    next
      case False
      define k where "k = length (children par)"
      have new: "node_at root1 (cur @ [k]) = Some (Node tg at [] [])"
        unfolding root1_def k_def by (rule node_at_push_new [OF par])
      have nv: "tag (Node tg at [] []) \<notin> set selfClosingTags"
        using False by simp
      have kids: "foldl build_step (root1, (cur @ [k]) # cur # below) (concat (map node_tokens cs))
          = (update_at (cur @ [k]) (append_children cs) root1, (cur @ [k]) # cur # below)"
      proof (rule build_children [OF _ pl new nv])
        fix c root cur below par
        assume "c \<in> set cs" "plain_node c" "node_at root cur = Some par" "tag par \<notin> set selfClosingTags"
        then show "foldl build_step (root, cur # below) (node_tokens c)
            = (update_at cur (push_child c) root, cur # below)"
          by (rule Node.IH)
      qed
      have root2: "update_at (cur @ [k]) (append_children cs) root1
          = update_at cur (push_child (Node tg at cs [])) root"
        unfolding root1_def k_def
        by (simp add: update_pushed_child [OF par] append_children_def)
      have top: "node_at (update_at cur (push_child (Node tg at cs [])) root) (cur @ [k]) = Some (Node tg at cs [])"
        unfolding k_def by (rule node_at_push_new [OF par])
      have "foldl build_step (root, cur # below) (node_tokens (Node tg at cs tx))
          = build_step (foldl build_step (build_step (root, cur # below) (tag_token False tg at))
              (concat (map node_tokens cs))) (close_token tg)"
        using False \<open>tx = []\<close> by simp
      also have "\<dots> = build_step (update_at cur (push_child (Node tg at cs [])) root, (cur @ [k]) # cur # below)
              (close_token tg)"
        by (simp only: build_step_open [OF par] root1_def [symmetric] k_def [symmetric] kids root2)
      also have "\<dots> = (update_at cur (push_child (Node tg at cs [])) root, cur # below)"
        by (rule build_step_close_pop [OF top]) simp
      finally show ?thesis
        using \<open>tx = []\<close> by simp
    qed
  qed
qed

lemma buildTree_node_tokens:
  assumes "list_all plain_node cs"
  shows "buildTree (concat (map node_tokens cs)) = Node ''document'' [] cs []"
proof -
  have d: "node_at (Node ''document'' [] [] []) [] = Some (Node ''document'' [] [] [])"
    by simp
  have nv: "tag (Node ''document'' [] [] []) \<notin> set selfClosingTags"
    by (simp add: selfClosingTags_def)
  have "foldl build_step (Node ''document'' [] [] [], [] # []) (concat (map node_tokens cs))
      = (update_at [] (append_children cs) (Node ''document'' [] [] []), [] # [])"
    by (rule build_children [OF build_node assms d nv])
  then show ?thesis
    by (simp add: buildTree_def build_run_def build_init_def append_children_def)
qed

text \<open>
  Claim C6, as amended. For every plain subtree (\<open>plain_node\<close>: text leaves without
  \<^verbatim>\<open><\<close> and never adjacent, lower-case tag names other than script and style, void
  elements without children, distinct lower-case attribute names without whitespace,
  \<^verbatim>\<open>=\<close> or \<^verbatim>\<open>>\<close>, attribute values without a double quote or \<^verbatim>\<open>>\<close>), serialising it
  with \<^verbatim>\<open>toString\<close>, tokenizing and building again yields the document node with that
  subtree as its only child; and a document whose children are plain is what parsing its
  \<^verbatim>\<open>html()\<close> yields.
\<close>

theorem serialise_parse_roundtrip:
  "(plain_node n \<longrightarrow> parseHTML (toString n) = Some ([], Node ''document'' [] [n] []))
   \<and> (list_all plain_node cs \<and> no_adjacent_text cs \<longrightarrow>
        parseHTML (getInnerHTML (Node ''document'' [] cs [])) = Some ([], Node ''document'' [] cs []))"
proof -
  have many: "parseHTML (concat (map toString cs)) = Some ([], Node ''document'' [] cs [])"
    if "list_all plain_node cs" "no_adjacent_text cs" for cs
    using tokenize_toString_children [OF that] buildTree_node_tokens [OF that(1)]
    by (simp add: parseHTML_def)
  have one: "parseHTML (toString n) = Some ([], Node ''document'' [] [n] [])" if "plain_node n"
    using many [of "[n]"] that by simp
  from many [of cs] one show ?thesis
    by (simp add: getInnerHTML_def)
qed

theorem serialise_parse_roundtrip_witness:
  "plain_node plain_example
   \<and> toString plain_example = ''<div class='' @ [CHR 0x22] @ ''a b'' @ [CHR 0x22] @ '' id='' @ [CHR 0x22]
        @ ''main'' @ [CHR 0x22] @ ''><span>Hi</span><br></br> there > </div>''
   \<and> parseHTML (toString plain_example) = Some ([], Node ''document'' [] [plain_example] [])"
proof -
  have p: "plain_node plain_example" by code_simp
  have s: "toString plain_example = ''<div class='' @ [CHR 0x22] @ ''a b'' @ [CHR 0x22] @ '' id='' @ [CHR 0x22]
        @ ''main'' @ [CHR 0x22] @ ''><span>Hi</span><br></br> there > </div>''"
    by code_simp
  from serialise_parse_roundtrip [of plain_example] p s show ?thesis
    by blast
qed

theorem serialise_parse_roundtrip_counterexample:
  "parseHTML quoted_html = Some ([], Node ''document'' [] [quoted_node] [])
   \<and> parseHTML (toString quoted_node) \<noteq> Some ([], Node ''document'' [] [quoted_node] [])"
  by code_simp


end
